theory Spec2Isabelle
  imports Main "HOL-Library.AList"
begin

section \<open>The intermediate representation\<close>

text \<open>
  An instruction is a JSON object. Each key the passes read is an optional field; a
  missing key is \<open>None\<close>. A label marker has only \<open>label\<close>; an operation has \<open>op\<close>
  and whichever of the other keys it needs. A literal is a JSON integer or boolean, a
  type is a name or a parameterised type such as \<open>{"ptr": "int"}\<close>.
\<close>

datatype literal = IntLit int | BoolLit bool

datatype bril_type = Prim string | Param string bril_type

record instr =
  label :: "string option"
  op :: "string option"
  dest :: "string option"
  type :: "bril_type option"
  args :: "string list option"
  "value" :: "literal option"
  labels :: "string list option"
  funcs :: "string list option"

text \<open>
  A function of the program: the keys \<open>name\<close>, \<open>args\<close> (the typed parameters),
  \<open>type\<close> and \<open>instrs\<close>. The first three carry the prefix \<open>f\<close> because the
  instruction record already has fields called \<open>args\<close> and \<open>type\<close>.
\<close>

record func =
  fname :: string
  fargs :: "(string \<times> bril_type) list option"
  ftype :: "bril_type option"
  instrs :: "instr list"

text \<open>The exceptions the modelled Python code can raise.\<close>

datatype py_error = KeyError | IndexError | ValueError

text \<open>
  Python compares dictionaries key by key with \<open>==\<close>, under which \<open>True == 1\<close> and
  \<open>False == 0\<close>. \<open>list.remove\<close> and \<open>in\<close> on lists of instructions use this equality.
\<close>

fun lit_num :: "literal \<Rightarrow> int" where
  "lit_num (IntLit n) = n"
| "lit_num (BoolLit b) = (if b then 1 else 0)"

definition instr_eq :: "instr \<Rightarrow> instr \<Rightarrow> bool" where
  "instr_eq i j \<longleftrightarrow>
     label i = label j \<and> op i = op j \<and> dest i = dest j \<and> type i = type j \<and>
     args i = args j \<and> map_option lit_num (value i) = map_option lit_num (value j) \<and>
     labels i = labels j \<and> funcs i = funcs j"

text \<open>\<open>xs.remove(x)\<close>: drop the first element equal to \<open>x\<close>.\<close>

fun list_remove :: "instr \<Rightarrow> instr list \<Rightarrow> instr list" where
  "list_remove x [] = []"
| "list_remove x (y # ys) = (if instr_eq y x then ys else y # list_remove x ys)"

text \<open>\<open>xs.pop(j)\<close> for a non-negative index: IndexError when out of range.\<close>

definition list_pop :: "'a list \<Rightarrow> nat \<Rightarrow> py_error + 'a list" where
  "list_pop xs j = (if j < length xs then Inr (take j xs @ drop (Suc j) xs) else Inl IndexError)"

text \<open>Constructors for the instructions used in the examples.\<close>

definition no_instr :: instr where
  "no_instr = \<lparr>label = None, op = None, dest = None, type = None, args = None,
     value = None, labels = None, funcs = None\<rparr>"

definition const_i :: "string \<Rightarrow> int \<Rightarrow> instr" where
  "const_i d n = no_instr\<lparr>op := Some ''const'', dest := Some d,
     type := Some (Prim ''int''), value := Some (IntLit n)\<rparr>"

definition op_i :: "string \<Rightarrow> string \<Rightarrow> string list \<Rightarrow> instr" where
  "op_i d opc as = no_instr\<lparr>op := Some opc, dest := Some d, type := Some (Prim ''int''),
     args := Some as\<rparr>"

definition eff_i :: "string \<Rightarrow> string list \<Rightarrow> instr" where
  "eff_i opc as = no_instr\<lparr>op := Some opc, args := Some as\<rparr>"

definition label_i :: "string \<Rightarrow> instr" where
  "label_i l = no_instr\<lparr>label := Some l\<rparr>"

section \<open>Python operations\<close>

text \<open>
  An operation that can raise returns \<open>Inl\<close> of the exception; \<open>and_then\<close> runs the rest
  of the code on the value of one that did not.
\<close>

definition and_then :: "'e + 'a \<Rightarrow> ('a \<Rightarrow> 'e + 'b) \<Rightarrow> 'e + 'b" where
  "and_then r f = (case r of Inl e \<Rightarrow> Inl e | Inr x \<Rightarrow> f x)"

text \<open>
  A dictionary whose order of keys matters is a list of pairs with distinct keys, in
  insertion order; \<open>d[k] = v\<close> is \<open>AList.update k v d\<close>, which overwrites in place or
  appends. \<open>lookup\<close> is \<open>d[k]\<close>, \<open>get_or\<close> is \<open>d.get(k, dflt)\<close>, \<open>key\<close> reads a key of
  an instruction, \<open>item\<close> is \<open>xs[n]\<close> for a non-negative \<open>n\<close>, \<open>first_item\<close> is \<open>xs[0]\<close>
  and \<open>last_item\<close> is \<open>xs[-1]\<close>.
\<close>

definition lookup :: "('k \<times> 'v) list \<Rightarrow> 'k \<Rightarrow> py_error + 'v" where
  "lookup d k = (case map_of d k of None \<Rightarrow> Inl KeyError | Some v \<Rightarrow> Inr v)"

definition get_or :: "('k \<times> 'v) list \<Rightarrow> 'k \<Rightarrow> 'v \<Rightarrow> 'v" where
  "get_or d k dflt = (case map_of d k of None \<Rightarrow> dflt | Some v \<Rightarrow> v)"

definition key :: "'a option \<Rightarrow> py_error + 'a" where
  "key v = (case v of None \<Rightarrow> Inl KeyError | Some x \<Rightarrow> Inr x)"

definition item :: "'a list \<Rightarrow> nat \<Rightarrow> py_error + 'a" where
  "item xs n = (if n < length xs then Inr (xs ! n) else Inl IndexError)"

definition first_item :: "'a list \<Rightarrow> py_error + 'a" where
  "first_item xs = (case xs of [] \<Rightarrow> Inl IndexError | x # _ \<Rightarrow> Inr x)"

definition last_item :: "'a list \<Rightarrow> py_error + 'a" where
  "last_item xs = (if xs = [] then Inl IndexError else Inr (last xs))"

text \<open>\<open>dict(zip(ks, vs))\<close>: a later pair overwrites an earlier one with the same key.\<close>

definition dict_zip :: "'k list \<Rightarrow> 'v list \<Rightarrow> ('k \<times> 'v) list" where
  "dict_zip ks vs = fold (\<lambda>(k, v) d. AList.update k v d) (zip ks vs) []"

text \<open>Equality of dictionaries does not depend on the order of the keys.\<close>

definition dict_eq :: "('k \<times> 'v) list \<Rightarrow> ('k \<times> 'v) list \<Rightarrow> bool" where
  "dict_eq a b \<longleftrightarrow> list_all (\<lambda>k. map_of a k = map_of b k) (map fst a @ map fst b)"

text \<open>A \<open>for\<close> loop over a list whose body updates a state and can raise.\<close>

fun for_each :: "('a \<Rightarrow> 's \<Rightarrow> 'e + 's) \<Rightarrow> 'a list \<Rightarrow> 's \<Rightarrow> 'e + 's" where
  "for_each body [] s = Inr s"
| "for_each body (x # xs) s = and_then (body x s) (for_each body xs)"

text \<open>The results of a loop whose body can raise: the first exception ends it.\<close>

primrec collect_results :: "('e + 'a) list \<Rightarrow> 'e + 'a list" where
  "collect_results [] = Inr []"
| "collect_results (r # rs) =
     (case r of
        Inl e \<Rightarrow> Inl e
      | Inr x \<Rightarrow> (case collect_results rs of Inl e \<Rightarrow> Inl e | Inr xs \<Rightarrow> Inr (x # xs)))"

text \<open>\<open>str(n)\<close> for a non-negative integer.\<close>

function str_nat :: "nat \<Rightarrow> string" where
  "str_nat n = (if n < 10 then [''0123456789'' ! n]
                else str_nat (n div 10) @ [''0123456789'' ! (n mod 10)])"
  by pat_completeness auto
termination
  by (relation "measure id") auto

declare str_nat.simps [simp del]

text \<open>
  \<open>instr.get('args', [])\<close>, and the truth value of \<open>instr.get('dest')\<close>: a missing or
  empty destination is false.
\<close>

definition args_or_empty :: "instr \<Rightarrow> string list" where
  "args_or_empty i = (case args i of None \<Rightarrow> [] | Some as \<Rightarrow> as)"

definition truthy :: "string option \<Rightarrow> bool" where
  "truthy s \<longleftrightarrow> s \<noteq> None \<and> s \<noteq> Some []"

lemmas py_defs = and_then_def lookup_def item_def key_def first_item_def last_item_def
  get_or_def truthy_def args_or_empty_def

lemmas instr_defs = const_i_def op_i_def eff_i_def label_i_def no_instr_def

lemma and_then_Inr_iff: "and_then r f = Inr y \<longleftrightarrow> (\<exists>x. r = Inr x \<and> f x = Inr y)"
  by (cases r) (auto simp: and_then_def)

lemma item_Inr_iff: "item xs n = Inr x \<longleftrightarrow> n < length xs \<and> x = xs ! n"
  by (auto simp: item_def)

lemma collect_results_map:
  "collect_results (map g xs) = Inr ys \<Longrightarrow> list_all2 (\<lambda>x y. g x = Inr y) xs ys"
proof (induction xs arbitrary: ys)
  case Nil
  then show ?case by simp
next
  case (Cons x xs)
  then show ?case by (auto split: sum.splits)
qed

section \<open>Block builder (dataflow/util.py)\<close>

definition flatten :: "'a list list \<Rightarrow> 'a list" where
  "flatten ll = concat ll"

definition TERMINATORS :: "string list" where
  "TERMINATORS = [''br'', ''jmp'', ''ret'']"

text \<open>
  \<open>form_blocks\<close> is a generator; the model returns the list of the blocks it yields.
  The first argument of the loop is \<open>cur_block\<close>. The loop only reads the key \<open>op\<close>
  of each element, so it is written once for any element type with that key: the
  passes that depend on the identity of an instruction object run it on instructions
  paired with their identity.
\<close>

fun form_blocks_loop :: "('a \<Rightarrow> string option) \<Rightarrow> 'a list \<Rightarrow> 'a list \<Rightarrow> 'a list list" where
  "form_blocks_loop opf cur_block [] = (if cur_block \<noteq> [] then [cur_block] else [])"
| "form_blocks_loop opf cur_block (i # rest) =
     (case opf i of
        Some opc \<Rightarrow>
          (if opc \<in> set TERMINATORS then (cur_block @ [i]) # form_blocks_loop opf [] rest
           else form_blocks_loop opf (cur_block @ [i]) rest)
      | None \<Rightarrow>
          (if cur_block \<noteq> [] then [cur_block] else []) @ form_blocks_loop opf [i] rest)"

definition form_blocks :: "instr list \<Rightarrow> instr list list" where
  "form_blocks is = form_blocks_loop op [] is"

section \<open>Properties of the block builder\<close>

lemma concat_form_blocks_loop: "concat (form_blocks_loop opf cur is) = cur @ is"
  by (induction "is" arbitrary: cur) (auto split: option.splits)

lemma nonempty_form_blocks_loop: "[] \<notin> set (form_blocks_loop opf cur is)"
  by (induction "is" arbitrary: cur) (auto split: option.splits)

text \<open>
  C6. Concatenating the blocks of \<open>form_blocks\<close> in order gives back the instruction
  list, so every instruction lies in exactly one block, and no block is empty.
\<close>

theorem form_blocks_partition:
  "flatten (form_blocks is) = is \<and> (\<forall>b \<in> set (form_blocks is). b \<noteq> [])"
  using nonempty_form_blocks_loop [of op "[]" "is"]
  by (auto simp: flatten_def form_blocks_def concat_form_blocks_loop)

theorem form_blocks_partition_witness:
  "flatten (form_blocks [label_i ''l'', eff_i ''ret'' [], eff_i ''print'' [''x'']]) =
     [label_i ''l'', eff_i ''ret'' [], eff_i ''print'' [''x'']] \<and>
   form_blocks [label_i ''l'', eff_i ''ret'' [], eff_i ''print'' [''x'']] =
     [[label_i ''l'', eff_i ''ret'' []], [eff_i ''print'' [''x'']]] \<and>
   [] \<notin> set (form_blocks [label_i ''l'', eff_i ''ret'' [], eff_i ''print'' [''x'']])"
proof -
  have e: "form_blocks [label_i ''l'', eff_i ''ret'' [], eff_i ''print'' [''x'']] =
     [[label_i ''l'', eff_i ''ret'' []], [eff_i ''print'' [''x'']]]"
    by (simp add: form_blocks_def label_i_def eff_i_def no_instr_def TERMINATORS_def)
  show ?thesis
    using form_blocks_partition [of "[label_i ''l'', eff_i ''ret'' [], eff_i ''print'' [''x'']]"] e
    by simp
qed

section \<open>Dead code elimination (local_opt/global_dce.py, local_opt/local_dce.py)\<close>

definition main_func :: "instr list \<Rightarrow> func" where
  "main_func is = \<lparr>fname = ''main'', fargs = None, ftype = None, instrs = is\<rparr>"

subsection \<open>Global dead code elimination\<close>

text \<open>The first \<open>for\<close> loop of an iteration: add every argument to \<open>used\<close>.\<close>

definition collect_used :: "string set \<Rightarrow> instr list \<Rightarrow> string set" where
  "collect_used used is =
     fold (\<lambda>instr u. case args instr of Some as \<Rightarrow> u \<union> set as | None \<Rightarrow> u) is used"

lemma instr_eq_refl: "instr_eq i i"
  by (simp add: instr_eq_def)

lemma length_list_remove_le: "length (list_remove x xs) \<le> length xs"
  by (induction xs) auto

lemma length_list_remove_mem: "x \<in> set xs \<Longrightarrow> length (list_remove x xs) < length xs"
  by (induction xs) (auto simp: instr_eq_refl less_Suc_eq_le length_list_remove_le)

text \<open>
  The second \<open>for\<close> loop removes from the list it is iterating over. Python's list
  iterator keeps an index \<open>i\<close> and stops when \<open>i\<close> reaches the current length, so
  after a removal the element that slid into position \<open>i\<close> is skipped. The element
  removed is the first one equal to \<open>instr\<close>; it exists, since \<open>instr\<close> was read from
  the list, so \<open>remove\<close> never raises here.
\<close>

function dce_sweep :: "string set \<Rightarrow> nat \<Rightarrow> instr list \<Rightarrow> bool \<Rightarrow> instr list \<times> bool" where
  "dce_sweep used i is converge =
     (if i < length is then
        (if (case dest (is ! i) of Some d \<Rightarrow> d \<notin> used | None \<Rightarrow> False)
         then dce_sweep used (Suc i) (list_remove (is ! i) is) False
         else dce_sweep used (Suc i) is converge)
      else (is, converge))"
  by pat_completeness auto
termination
proof (relation "measure (\<lambda>(used, i, is, converge). length is - i)")
  fix used :: "string set" and i :: nat and "is" :: "instr list" and converge :: bool
  assume "i < length is"
  then show "((used, Suc i, list_remove (is ! i) is, False), (used, i, is, converge))
      \<in> measure (\<lambda>(used, i, is, converge). length is - i)"
    using length_list_remove_le [of "is ! i" "is"] by simp
qed auto

declare dce_sweep.simps [simp del]

lemma dce_sweep_length:
  "dce_sweep used i is c = (is', c') \<Longrightarrow>
     length is' \<le> length is \<and> (c \<and> \<not> c' \<longrightarrow> length is' < length is)"
proof (induction used i "is" c rule: dce_sweep.induct)
  case (1 used i "is" converge)
  note unfold = dce_sweep.simps [of used i "is" converge]
  show ?case
  proof (cases "i < length is")
    case False
    with "1.prems" unfold show ?thesis by simp
  next
    case True
    show ?thesis
    proof (cases "case dest (is ! i) of Some d \<Rightarrow> d \<notin> used | None \<Rightarrow> False")
      case dead: True
      from True dead "1.prems" unfold
      have "dce_sweep used (Suc i) (list_remove (is ! i) is) False = (is', c')" by simp
      from "1.IH"(1) [OF True dead this]
      have "length is' \<le> length (list_remove (is ! i) is)" by simp
      moreover have "length (list_remove (is ! i) is) < length is"
        using True by (simp add: length_list_remove_mem)
      ultimately show ?thesis by simp
    next
      case live: False
      from True live "1.prems" unfold
      have "dce_sweep used (Suc i) is converge = (is', c')" by simp
      from "1.IH"(2) [OF True live this] show ?thesis .
    qed
  qed
qed

text \<open>
  The \<open>while not converge\<close> loop. \<open>used\<close> is created once, before the loop, and only
  ever grows. Each pass that does not converge has removed an instruction, so the
  loop terminates.
\<close>

function global_dce_loop :: "string set \<Rightarrow> instr list \<Rightarrow> instr list" where
  "global_dce_loop used is =
     (let used' = collect_used used is;
          r = dce_sweep used' 0 is True
      in if snd r then fst r else global_dce_loop used' (fst r))"
  by pat_completeness auto
termination
proof (relation "measure (\<lambda>(used, is). length is)")
  fix used :: "string set" and "is" :: "instr list" and used' r
  assume "used' = collect_used used is" "r = dce_sweep used' 0 is True" "\<not> snd r"
  then have "dce_sweep used' 0 is True = (fst r, False)"
    by (simp add: prod_eq_iff)
  from dce_sweep_length [OF this]
  show "((used', fst r), (used, is)) \<in> measure (\<lambda>(used, is). length is)" by simp
qed simp

declare global_dce_loop.simps [simp del]

definition global_dce :: "func \<Rightarrow> func" where
  "global_dce f = f\<lparr>instrs := global_dce_loop {} (instrs f)\<rparr>"

subsection \<open>Local dead code elimination\<close>

text \<open>\<open>last_def.pop(arg, None)\<close> for every argument.\<close>

definition dict_pop_all :: "string list \<Rightarrow> (string \<rightharpoonup> nat) \<Rightarrow> (string \<rightharpoonup> nat)" where
  "dict_pop_all as m = fold (\<lambda>arg m. m(arg := None)) as m"

text \<open>
  The loop over \<open>enumerate(block)\<close>, which pops from \<open>block\<close> while iterating over
  it: the counter of \<open>enumerate\<close> and the index of the list iterator advance together,
  whatever has been popped, and the positions stored in \<open>last_def\<close> are those counters.
\<close>

function local_dce_scan :: "nat \<Rightarrow> instr list \<Rightarrow> (string \<rightharpoonup> nat) \<Rightarrow> py_error + instr list" where
  "local_dce_scan i block last_def =
     (if i < length block then
        (let instr = block ! i;
             last_def1 = dict_pop_all (case args instr of Some as \<Rightarrow> as | None \<Rightarrow> []) last_def
         in case dest instr of
              None \<Rightarrow> local_dce_scan (Suc i) block last_def1
            | Some d \<Rightarrow>
                (case last_def1 d of
                   None \<Rightarrow> local_dce_scan (Suc i) block (last_def1(d \<mapsto> i))
                 | Some j \<Rightarrow>
                     (case list_pop block j of
                        Inl e \<Rightarrow> Inl e
                      | Inr block' \<Rightarrow> local_dce_scan (Suc i) block' (last_def1(d \<mapsto> i)))))
      else Inr block)"
  by pat_completeness auto
termination
  by (relation "measure (\<lambda>(i, block, last_def). length block - i)")
     (auto simp: list_pop_def split: if_splits)

declare local_dce_scan.simps [simp del]

definition local_dce :: "func \<Rightarrow> py_error + func" where
  "local_dce f =
     (case collect_results (map (\<lambda>block. local_dce_scan 0 block Map.empty) (form_blocks (instrs f))) of
        Inl e \<Rightarrow> Inl e
      | Inr blocks \<Rightarrow> Inr (f\<lparr>instrs := flatten blocks\<rparr>))"

subsection \<open>Properties of dead code elimination\<close>

text \<open>
  C1. Global dead code elimination on \<open>a: int = const 1; b: int = add a a;\<close>. The claim
  is that \<open>b\<close>'s instruction goes and then \<open>a\<close>'s, leaving no instruction whose
  destination is never read. The code removes \<open>b\<close>'s instruction only: \<open>used\<close> is never
  reset, so \<open>a\<close>, recorded as an argument of \<open>b\<close> in the first pass, stays in it, and the
  result still holds \<open>a\<close>'s instruction, whose destination nothing reads.
\<close>

theorem global_dce_keeps_exposed_dead_code:
  "instrs (global_dce (main_func [const_i ''a'' 1, op_i ''b'' ''add'' [''a'', ''a'']])) =
     [const_i ''a'' 1]"
  by (simp add: global_dce_def main_func_def global_dce_loop.simps dce_sweep.simps
      collect_used_def const_i_def op_i_def no_instr_def instr_eq_def Let_def)

text \<open>
  Global dead code elimination removes only instructions that have a destination: the
  instructions without one come out as they went in, in the same order.
\<close>

lemma instr_eq_dest: "instr_eq y x \<Longrightarrow> dest y = dest x"
  by (simp add: instr_eq_def)

lemma filter_list_remove:
  "dest x \<noteq> None \<Longrightarrow>
     filter (\<lambda>i. dest i = None) (list_remove x xs) = filter (\<lambda>i. dest i = None) xs"
  by (induction xs) (auto dest: instr_eq_dest)

lemma dce_sweep_keeps_effects:
  "filter (\<lambda>i. dest i = None) (fst (dce_sweep used i is c)) = filter (\<lambda>i. dest i = None) is"
proof (induction used i "is" c rule: dce_sweep.induct)
  case (1 used i "is" converge)
  show ?case
    using "1.IH" filter_list_remove [of "is ! i" "is"]
    by (subst dce_sweep.simps) (auto split: option.splits)
qed

lemma global_dce_keeps_effects:
  "filter (\<lambda>i. dest i = None) (global_dce_loop used is) = filter (\<lambda>i. dest i = None) is"
proof (induction used "is" rule: global_dce_loop.induct)
  case (1 used "is")
  show ?case
    using "1.IH" dce_sweep_keeps_effects [of "collect_used used is" 0 "is" True]
    by (subst global_dce_loop.simps) (auto simp: Let_def)
qed

text \<open>
  C10. Dead code elimination should remove only instructions that have a destination.
  Global elimination does (\<open>global_dce_keeps_effects\<close>). Local elimination does not:
  in \<open>x = const 0; a = const 1; a = const 2; print x; a = const 3;\<close> the first pop
  shifts the block, the scan skips \<open>print x\<close>, and the position recorded for
  \<open>a = const 2\<close> then names \<open>print x\<close>, which the second pop removes.
\<close>

theorem local_dce_removes_print:
  "local_dce (main_func
       [const_i ''x'' 0, const_i ''a'' 1, const_i ''a'' 2, eff_i ''print'' [''x''],
        const_i ''a'' 3]) =
     Inr (main_func [const_i ''x'' 0, const_i ''a'' 2, const_i ''a'' 3])"
  by (simp add: local_dce_def main_func_def form_blocks_def flatten_def TERMINATORS_def
      local_dce_scan.simps list_pop_def dict_pop_all_def const_i_def eff_i_def no_instr_def)

section \<open>Control-flow graphs\<close>

type_synonym cfg = "(string \<times> string list) list"

subsection \<open>get\_cfg and get\_predecessor (dataflow/dataflow.py)\<close>

text \<open>
  \<open>block_labels\<close> is the dictionary from the index of a block to its label. The body
  of the loop of \<open>get_cfg\<close> reads the last instruction, then the label of the block,
  then the opcode. In the source the test for the last block is \<open>i < len(blocks) - 1\<close>
  over the integers; over the naturals it is written \<open>i + 1 < length blocks\<close>.
\<close>

definition get_cfg_body ::
  "instr list list \<Rightarrow> (nat \<times> string) list \<Rightarrow> nat \<times> instr list \<Rightarrow> cfg \<Rightarrow> py_error + cfg" where
  "get_cfg_body blocks block_labels ib cfg =
     (case ib of (i, block) \<Rightarrow>
        and_then (last_item block) (\<lambda>last_instr.
        and_then (lookup block_labels i) (\<lambda>curr_label.
        and_then (key (op last_instr)) (\<lambda>opc.
          if opc = ''jmp'' then
            and_then (key (labels last_instr)) (\<lambda>ls.
            and_then (first_item ls) (\<lambda>l. Inr (AList.update curr_label [l] cfg)))
          else if opc = ''br'' then
            and_then (key (labels last_instr)) (\<lambda>ls. Inr (AList.update curr_label ls cfg))
          else if i + 1 < length blocks then
            and_then (lookup block_labels (i + 1)) (\<lambda>l. Inr (AList.update curr_label [l] cfg))
          else Inr (AList.update curr_label [] cfg)))))"

definition get_cfg :: "instr list list \<Rightarrow> (nat \<times> string) list \<Rightarrow> py_error + cfg" where
  "get_cfg blocks block_labels =
     for_each (get_cfg_body blocks block_labels) (enumerate 0 blocks) []"

definition get_predecessor :: "cfg \<Rightarrow> string \<Rightarrow> string list" where
  "get_predecessor cfg curr_label = map fst (filter (\<lambda>(lbl, succ). curr_label \<in> set succ) cfg)"

subsection \<open>construct\_cfg (memory/dse.py)\<close>

text \<open>
  Dead-store elimination names allocation sites by the identity of the allocating
  instruction object, \<open>id(instr)\<close>. An object is the instruction together with its
  identity, for which the model takes its position in the instruction list of the
  function as loaded.
\<close>

type_synonym obj = "nat \<times> instr"

definition objs :: "instr list \<Rightarrow> obj list" where
  "objs is = enumerate 0 is"

text \<open>
  \<open>initialize_labels\<close> also builds a dictionary from labels to blocks, which its only
  caller discards; the model returns the list of labels.
\<close>

fun initialize_labels_loop :: "nat \<Rightarrow> obj list list \<Rightarrow> py_error + string list" where
  "initialize_labels_loop idx [] = Inr []"
| "initialize_labels_loop idx (block # rest) =
     and_then (first_item block) (\<lambda>first.
     and_then (initialize_labels_loop (Suc idx) rest) (\<lambda>ls.
       Inr ((case label (snd first) of Some l \<Rightarrow> l | None \<Rightarrow> ''<bb'' @ str_nat idx @ ''>'') # ls)))"

definition initialize_labels :: "obj list list \<Rightarrow> py_error + string list" where
  "initialize_labels blocks = initialize_labels_loop 0 blocks"

text \<open>\<open>cfg[lbl].extend(xs)\<close>, and \<open>cfg[lbl].append(x)\<close> with \<open>xs = [x]\<close>.\<close>

definition dict_extend :: "cfg \<Rightarrow> string \<Rightarrow> string list \<Rightarrow> py_error + cfg" where
  "dict_extend cfg lbl xs =
     and_then (lookup cfg lbl) (\<lambda>old. Inr (AList.update lbl (old @ xs) cfg))"

definition add_cfg_edge ::
  "cfg \<Rightarrow> string \<Rightarrow> instr \<Rightarrow> string list \<Rightarrow> nat \<Rightarrow> obj list list \<Rightarrow> py_error + cfg" where
  "add_cfg_edge cfg lbl last_instr labels_list idx blocks =
     and_then (key (op last_instr)) (\<lambda>opc.
       if opc = ''br'' then
         and_then (key (labels last_instr)) (\<lambda>ls. dict_extend cfg lbl ls)
       else if opc = ''jmp'' then
         and_then (key (labels last_instr)) (\<lambda>ls.
         and_then (first_item ls) (\<lambda>l. dict_extend cfg lbl [l]))
       else if idx + 1 < length blocks then
         and_then (item labels_list (idx + 1)) (\<lambda>l. dict_extend cfg lbl [l])
       else Inr cfg)"

text \<open>
  In \<open>build_cfg_edges\<close> the last instruction counts only if it is a non-empty
  dictionary with the key \<open>op\<close>.
\<close>

definition build_cfg_edges_body ::
  "obj list list \<Rightarrow> string list \<Rightarrow> nat \<times> obj list \<Rightarrow> cfg \<Rightarrow> py_error + cfg" where
  "build_cfg_edges_body blocks labels_list ib cfg =
     (case ib of (idx, block) \<Rightarrow>
        and_then (item labels_list idx) (\<lambda>lbl.
          if block \<noteq> [] \<and> snd (last block) \<noteq> no_instr \<and> op (snd (last block)) \<noteq> None then
            add_cfg_edge cfg lbl (snd (last block)) labels_list idx blocks
          else if idx + 1 < length blocks then
            and_then (item labels_list (idx + 1)) (\<lambda>l. dict_extend cfg lbl [l])
          else Inr cfg))"

definition build_cfg_edges :: "obj list list \<Rightarrow> string list \<Rightarrow> py_error + cfg" where
  "build_cfg_edges blocks labels_list =
     for_each (build_cfg_edges_body blocks labels_list) (enumerate 0 blocks)
       (fold (\<lambda>lbl cfg. AList.update lbl [] cfg) labels_list [])"

definition construct_cfg :: "obj list list \<Rightarrow> py_error + cfg \<times> string list" where
  "construct_cfg blocks =
     and_then (initialize_labels blocks) (\<lambda>labels_list.
     and_then (build_cfg_edges blocks labels_list) (\<lambda>cfg. Inr (cfg, labels_list)))"

subsection \<open>Properties of the graph builders\<close>

text \<open>
  C2. A block that ends in \<open>ret\<close> should have no successor. In both builders \<open>ret\<close>
  falls into the branch for instructions that are neither \<open>jmp\<close> nor \<open>br\<close>, so a
  block ending in \<open>ret\<close> that is not the last one gets the next block as successor:
  for the blocks \<open>[A: ret]\<close> and \<open>[B: print x]\<close> the successors of \<open>A\<close> are \<open>[B]\<close>.
\<close>

theorem ret_block_falls_through:
  "get_cfg [[label_i ''A'', eff_i ''ret'' []], [label_i ''B'', eff_i ''print'' [''x'']]]
       [(0, ''A''), (1, ''B'')] =
     Inr [(''A'', [''B'']), (''B'', [])] \<and>
   construct_cfg (form_blocks_loop (op \<circ> snd) []
       (objs [label_i ''A'', eff_i ''ret'' [], label_i ''B'', eff_i ''print'' [''x'']])) =
     Inr ([(''A'', [''B'']), (''B'', [])], [''A'', ''B''])"
  by (simp add: get_cfg_def get_cfg_body_def construct_cfg_def initialize_labels_def
      build_cfg_edges_def build_cfg_edges_body_def add_cfg_edge_def dict_extend_def objs_def
      TERMINATORS_def py_defs instr_defs)

section \<open>Local value numbering (local_opt/lvn.py)\<close>

text \<open>
  \<open>Numbering\<close> is a dictionary with a counter; \<open>add\<close> binds the key to the counter
  and advances it.
\<close>

record numbering =
  table :: "(string \<times> nat) list"
  next_id :: nat

definition numbering_add :: "numbering \<Rightarrow> string \<Rightarrow> numbering \<times> nat" where
  "numbering_add nb k =
     (\<lparr>table = AList.update k (next_id nb) (table nb), next_id = next_id nb + 1\<rparr>, next_id nb)"

text \<open>
  \<open>last_writes\<close> scans the block from its end with the set \<open>seen\<close> of destinations
  met so far.
\<close>

fun last_writes_loop :: "instr list \<Rightarrow> bool list \<times> string set" where
  "last_writes_loop [] = ([], {})"
| "last_writes_loop (instr # rest) =
     (case last_writes_loop rest of (out, seen) \<Rightarrow>
        (case dest instr of
           Some d \<Rightarrow> if d \<notin> seen then (True # out, insert d seen) else (False # out, seen)
         | None \<Rightarrow> (False # out, seen)))"

definition last_writes :: "instr list \<Rightarrow> bool list" where
  "last_writes is = fst (last_writes_loop is)"

text \<open>
  \<open>get_variables_read_before_write\<close> returns a set. The model keeps its elements in
  a list without repetitions. \<open>lvn_block\<close> iterates over the set, in an order that
  Python does not fix: \<open>set_iter prio xs\<close> is the elements of \<open>xs\<close> with those of
  \<open>prio\<close> first, so every order of iteration is \<open>set_iter prio xs\<close> for some \<open>prio\<close>.
\<close>

definition get_variables_read_before_write :: "instr list \<Rightarrow> string list" where
  "get_variables_read_before_write is =
     fst (fold (\<lambda>instr (read_before_write, written_vars).
            (read_before_write @
               filter (\<lambda>arg. arg \<notin> written_vars \<and> arg \<notin> set read_before_write)
                 (remdups (args_or_empty instr)),
             case dest instr of Some d \<Rightarrow> insert d written_vars | None \<Rightarrow> written_vars))
          is ([], {}))"

definition set_iter :: "'a list \<Rightarrow> 'a list \<Rightarrow> 'a list" where
  "set_iter prio xs = remdups (filter (\<lambda>v. v \<in> set xs) prio) @ filter (\<lambda>v. v \<notin> set prio) (remdups xs)"

text \<open>A value is the pair of an opcode and the numbers of its arguments.\<close>

definition canonicalize :: "string \<times> nat list \<Rightarrow> string \<times> nat list" where
  "canonicalize v = (if fst v \<in> {''add'', ''mul''} then (fst v, sort (snd v)) else v)"

record lvn_state =
  var2num :: numbering
  value2num :: "((string \<times> nat list) \<times> nat) list"
  num2vars :: "(nat \<times> string list) list"
  num2const :: "(nat \<times> literal) list"

text \<open>The body of the first loop of \<open>lvn_block\<close>, over the variables read before written.\<close>

definition lvn_seed :: "string \<Rightarrow> lvn_state \<Rightarrow> lvn_state" where
  "lvn_seed var st =
     (case numbering_add (var2num st) var of (nb, num) \<Rightarrow>
        st\<lparr>var2num := nb, num2vars := AList.update num [var] (num2vars st)\<rparr>)"

text \<open>
  The end of the body of the main loop, for an instruction with a destination that
  was not rewritten: a fresh number, recorded as a constant for \<open>const\<close>, and a fresh
  name unless this is the last write of the destination.
\<close>

definition lvn_fresh_number :: "instr \<Rightarrow> bool \<Rightarrow> (string \<times> nat list) option \<Rightarrow> string \<Rightarrow> lvn_state \<Rightarrow>
    py_error + instr \<times> lvn_state" where
  "lvn_fresh_number instr last_write val d st =
     (case numbering_add (var2num st) d of (nb, newnum) \<Rightarrow>
        and_then (key (op instr)) (\<lambda>opc.
        and_then (if opc = ''const'' then
                    and_then (key (value instr)) (\<lambda>v. Inr (AList.update newnum v (num2const st)))
                  else Inr (num2const st)) (\<lambda>n2c.
          let var = (if last_write then d else ''lvn.'' @ str_nat newnum) in
          Inr (instr\<lparr>dest := Some var\<rparr>,
               st\<lparr>var2num := nb, num2const := n2c,
                  num2vars := AList.update newnum [var] (num2vars st),
                  value2num := (case val of None \<Rightarrow> value2num st
                                | Some v \<Rightarrow> AList.update v newnum (value2num st))\<rparr>))))"

text \<open>
  The body of the main loop. \<open>instr0\<close> is the instruction as read, \<open>instr1\<close> after its
  arguments have been rewritten; \<open>done\<close> collects the instructions of the block as
  they are left.
\<close>

definition lvn_body :: "instr \<times> bool \<Rightarrow> instr list \<times> lvn_state \<Rightarrow> py_error + instr list \<times> lvn_state" where
  "lvn_body il acc =
     (case il of (instr0, last_write) \<Rightarrow> case acc of (done, st0) \<Rightarrow>
        and_then (collect_results (map (lookup (table (var2num st0))) (args_or_empty instr0))) (\<lambda>argnums.
        and_then (if args instr0 \<noteq> None then
                    and_then (collect_results
                        (map (\<lambda>n. and_then (lookup (num2vars st0) n) first_item) argnums))
                      (\<lambda>as. Inr (instr0\<lparr>args := Some as\<rparr>))
                  else Inr instr0) (\<lambda>instr1.
          let st1 = (case dest instr1 of
                       Some d \<Rightarrow> st0\<lparr>num2vars := map (\<lambda>(n, rhs). (n, remove1 d rhs)) (num2vars st0)\<rparr>
                     | None \<Rightarrow> st0)
          in case dest instr1 of
               None \<Rightarrow> Inr (done @ [instr1], st1)
             | Some d \<Rightarrow>
                 if args instr1 \<noteq> None then
                   and_then (key (op instr1)) (\<lambda>opc.
                     if opc \<noteq> ''call'' then
                       (let val = canonicalize (opc, argnums) in
                        case map_of (value2num st1) val of
                          Some num \<Rightarrow>
                            (let nb = (var2num st1)\<lparr>table := AList.update d num (table (var2num st1))\<rparr> in
                             case map_of (num2const st1) num of
                               Some c \<Rightarrow>
                                 Inr (done @ [instr1\<lparr>op := Some ''const'', value := Some c, args := None\<rparr>],
                                      st1\<lparr>var2num := nb\<rparr>)
                             | None \<Rightarrow>
                                 and_then (and_then (lookup (num2vars st1) num) first_item) (\<lambda>rep.
                                 and_then (lookup (num2vars st1) num) (\<lambda>vars.
                                   Inr (done @ [instr1\<lparr>op := Some ''id'', args := Some [rep]\<rparr>],
                                        st1\<lparr>var2num := nb,
                                            num2vars := AList.update num (vars @ [d]) (num2vars st1)\<rparr>))))
                        | None \<Rightarrow>
                            and_then (lvn_fresh_number instr1 last_write (Some val) d st1)
                              (\<lambda>(instr2, st2). Inr (done @ [instr2], st2)))
                     else
                       and_then (lvn_fresh_number instr1 last_write None d st1)
                         (\<lambda>(instr2, st2). Inr (done @ [instr2], st2)))
                 else
                   and_then (lvn_fresh_number instr1 last_write None d st1)
                     (\<lambda>(instr2, st2). Inr (done @ [instr2], st2)))))"

definition lvn_block :: "string list \<Rightarrow> instr list \<Rightarrow> py_error + instr list" where
  "lvn_block prio block =
     (let st = fold lvn_seed (set_iter prio (get_variables_read_before_write block))
                 \<lparr>var2num = \<lparr>table = [], next_id = 0\<rparr>, value2num = [], num2vars = [], num2const = []\<rparr>
      in and_then (for_each lvn_body (zip block (last_writes block)) ([], st)) (\<lambda>(done, st'). Inr done))"

text \<open>The body of the loop of \<open>lvn\<close> over the functions of the program, and \<open>lvn\<close>.\<close>

definition lvn_func :: "string list \<Rightarrow> func \<Rightarrow> py_error + func" where
  "lvn_func prio f =
     and_then (collect_results (map (lvn_block prio) (form_blocks (instrs f))))
       (\<lambda>blocks. Inr (f\<lparr>instrs := flatten blocks\<rparr>))"

record prog =
  "functions" :: "func list"

definition lvn :: "string list \<Rightarrow> prog \<Rightarrow> py_error + prog" where
  "lvn prio p =
     and_then (collect_results (map (lvn_func prio) (functions p)))
       (\<lambda>fs. Inr (p\<lparr>functions := fs\<rparr>))"

subsection \<open>Properties of local value numbering\<close>

lemma read_before_write_constants:
  "get_variables_read_before_write
     [const_i ''a'' 4, const_i ''b'' 4, op_i ''c'' ''add'' [''a'', ''b'']] = []"
  by (simp add: get_variables_read_before_write_def instr_defs py_defs)

text \<open>
  C4, as the code has it. On \<open>a: int = const 4; b: int = const 4; c: int = add a b;\<close>
  local value numbering changes nothing, whatever the order of iteration: a constant
  load has no arguments, so it is never looked up in the table of values and gets a
  fresh number, and \<open>b\<close> stays a constant load.
\<close>

theorem lvn_keeps_equal_constants:
  "lvn_block prio [const_i ''a'' 4, const_i ''b'' 4, op_i ''c'' ''add'' [''a'', ''b'']] =
     Inr [const_i ''a'' 4, const_i ''b'' 4, op_i ''c'' ''add'' [''a'', ''b'']]"
  unfolding lvn_block_def read_before_write_constants
  by (simp add: set_iter_def last_writes_def lvn_body_def lvn_fresh_number_def
      numbering_add_def canonicalize_def instr_defs py_defs Let_def)

text \<open>
  C4, as claimed, fails: the instruction that defines \<open>b\<close> in the result is the
  second one, and it is the constant load, not a copy (\<open>id\<close>) of \<open>a\<close>.
\<close>

theorem lvn_constant_not_copy:
  "\<not> (\<exists>out. lvn_block [] [const_i ''a'' 4, const_i ''b'' 4, op_i ''c'' ''add'' [''a'', ''b'']] = Inr out \<and>
          op (out ! 1) = Some ''id'' \<and> args (out ! 1) = Some [''a''])"
  unfolding lvn_block_def read_before_write_constants
  by (simp add: set_iter_def last_writes_def lvn_body_def lvn_fresh_number_def
      numbering_add_def canonicalize_def instr_defs py_defs Let_def)

section \<open>Dead-store elimination (memory/dse.py)\<close>

type_synonym sites = "string set"

type_synonym alias_map = "(string \<times> sites) list"

subsection \<open>Alias analysis\<close>

definition collect_alloc_sites_body :: "obj \<Rightarrow> (nat \<times> string) list \<times> nat \<Rightarrow> (nat \<times> string) list \<times> nat" where
  "collect_alloc_sites_body ob st =
     (case st of (alloc_sites, counter) \<Rightarrow>
        if op (snd ob) = Some ''alloc''
        then (AList.update (fst ob) (''alloc_'' @ str_nat counter) alloc_sites, counter + 1)
        else (alloc_sites, counter))"

definition collect_alloc_sites :: "obj list \<Rightarrow> (nat \<times> string) list" where
  "collect_alloc_sites is = fst (fold collect_alloc_sites_body is ([], 0))"

definition get_func_args :: "func \<Rightarrow> string list" where
  "get_func_args f = (case fargs f of None \<Rightarrow> [] | Some as \<Rightarrow> map fst as)"

definition initialize_states :: "string list \<Rightarrow> (string \<times> alias_map) list \<times> (string \<times> alias_map) list" where
  "initialize_states labels_list =
     (fold (\<lambda>lbl d. AList.update lbl [] d) labels_list [],
      fold (\<lambda>lbl d. AList.update lbl [] d) labels_list [])"

definition initialize_func_args_state :: "string list \<Rightarrow> alias_map" where
  "initialize_func_args_state func_args = fold (\<lambda>arg d. AList.update arg {''unknown''} d) func_args []"

definition merge_predecessor_states ::
  "string \<Rightarrow> cfg \<Rightarrow> (string \<times> alias_map) list \<Rightarrow> alias_map \<Rightarrow> py_error + alias_map" where
  "merge_predecessor_states lbl cfg out_state init_state =
     (let preds = map fst (filter (\<lambda>(pred, succs). lbl \<in> set succs) cfg)
      in if preds \<noteq> [] then
           for_each (\<lambda>pred in_map.
               and_then (lookup out_state pred) (\<lambda>out_map.
                 Inr (fold (\<lambda>(var, locs) m. AList.update var (get_or m var {} \<union> locs) m) out_map in_map)))
             preds []
         else Inr init_state)"

definition analyze_block_body :: "(nat \<times> string) list \<Rightarrow> obj \<Rightarrow> alias_map \<Rightarrow> py_error + alias_map" where
  "analyze_block_body alloc_sites ob state =
     (case op (snd ob) of
        None \<Rightarrow> Inr state
      | Some opc \<Rightarrow>
          (let d = dest (snd ob); as = args_or_empty (snd ob) in
           if opc = ''alloc'' \<and> truthy d then
             and_then (lookup alloc_sites (fst ob)) (\<lambda>site. Inr (AList.update (the d) {site} state))
           else if opc = ''id'' \<and> truthy d \<and> as \<noteq> [] then
             (case map_of state (hd as) of
                Some locs \<Rightarrow> Inr (AList.update (the d) locs state)
              | None \<Rightarrow> Inr state)
           else if opc = ''ptradd'' \<and> truthy d \<and> as \<noteq> [] then
             (case map_of state (hd as) of
                Some locs \<Rightarrow> Inr (AList.update (the d) locs state)
              | None \<Rightarrow> Inr state)
           else if opc \<in> {''load'', ''call''} \<and> truthy d then
             Inr (AList.update (the d) {''unknown''} state)
           else Inr state))"

definition analyze_block :: "obj list \<Rightarrow> alias_map \<Rightarrow> (nat \<times> string) list \<Rightarrow> py_error + alias_map" where
  "analyze_block block in_map alloc_sites = for_each (analyze_block_body alloc_sites) block in_map"

definition alias_analysis_body ::
  "cfg \<Rightarrow> (string \<times> obj list) list \<Rightarrow> alias_map \<Rightarrow> (nat \<times> string) list \<Rightarrow> string \<Rightarrow> string list \<Rightarrow>
     (string \<times> alias_map) list \<Rightarrow> (string \<times> alias_map) list \<Rightarrow>
     py_error + string list \<times> (string \<times> alias_map) list \<times> (string \<times> alias_map) list" where
  "alias_analysis_body cfg block_map init_state alloc_sites lbl worklist in_state out_state =
     and_then (merge_predecessor_states lbl cfg out_state init_state) (\<lambda>in_map.
     and_then (lookup out_state lbl) (\<lambda>old_out.
     and_then (lookup block_map lbl) (\<lambda>block.
     and_then (analyze_block block in_map alloc_sites) (\<lambda>out_map.
       if \<not> dict_eq out_map old_out then
         and_then (lookup cfg lbl) (\<lambda>succs.
           Inr (worklist @ filter (\<lambda>succ. succ \<notin> set worklist) succs,
                AList.update lbl in_map in_state, AList.update lbl out_map out_state))
       else Inr (worklist, AList.update lbl in_map in_state, AList.update lbl out_map out_state)))))"

partial_function (option) alias_analysis_loop ::
  "cfg \<Rightarrow> (string \<times> obj list) list \<Rightarrow> alias_map \<Rightarrow> (nat \<times> string) list \<Rightarrow> string list \<Rightarrow>
     (string \<times> alias_map) list \<Rightarrow> (string \<times> alias_map) list \<Rightarrow>
     (py_error + (string \<times> alias_map) list \<times> (string \<times> alias_map) list) option" where
  "alias_analysis_loop cfg block_map init_state alloc_sites worklist in_state out_state =
     (case worklist of
        [] \<Rightarrow> Some (Inr (in_state, out_state))
      | lbl # rest \<Rightarrow>
          (case alias_analysis_body cfg block_map init_state alloc_sites lbl rest in_state out_state of
             Inl e \<Rightarrow> Some (Inl e)
           | Inr (worklist', in_state', out_state') \<Rightarrow>
               alias_analysis_loop cfg block_map init_state alloc_sites worklist' in_state' out_state'))"

definition alias_analysis ::
  "obj list list \<Rightarrow> cfg \<Rightarrow> string list \<Rightarrow> string list \<Rightarrow> (nat \<times> string) list \<Rightarrow>
     (py_error + (string \<times> alias_map) list \<times> (string \<times> alias_map) list) option" where
  "alias_analysis blocks cfg labels_list func_args alloc_sites =
     (case initialize_states labels_list of (in_state, out_state) \<Rightarrow>
        alias_analysis_loop cfg (dict_zip labels_list blocks) (initialize_func_args_state func_args)
          alloc_sites labels_list in_state out_state)"

definition update_state_based_on_instr :: "alias_map \<Rightarrow> obj \<Rightarrow> (nat \<times> string) list \<Rightarrow> py_error + alias_map" where
  "update_state_based_on_instr state ob alloc_sites =
     (case op (snd ob) of
        None \<Rightarrow> Inr state
      | Some opc \<Rightarrow>
          (let d = dest (snd ob); as = args_or_empty (snd ob) in
           if opc = ''alloc'' \<and> truthy d then
             and_then (lookup alloc_sites (fst ob)) (\<lambda>alloc_site. Inr (AList.update (the d) {alloc_site} state))
           else if opc = ''id'' \<and> truthy d \<and> as \<noteq> [] then
             Inr (AList.update (the d) (get_or state (hd as) {}) state)
           else if opc = ''ptradd'' \<and> truthy d \<and> as \<noteq> [] then
             Inr (AList.update (the d) (get_or state (hd as) {}) state)
           else if opc \<in> {''load'', ''call''} \<and> truthy d then
             Inr (AList.update (the d) {''unknown''} state)
           else Inr state))"

fun alias_snapshots :: "(nat \<times> string) list \<Rightarrow> obj list \<Rightarrow> alias_map \<Rightarrow> py_error + alias_map list" where
  "alias_snapshots alloc_sites [] state = Inr []"
| "alias_snapshots alloc_sites (ob # rest) state =
     and_then (update_state_based_on_instr state ob alloc_sites) (\<lambda>state'.
     and_then (alias_snapshots alloc_sites rest state') (\<lambda>alias_maps. Inr (state # alias_maps)))"

definition build_alias_info ::
  "(string \<times> alias_map) list \<Rightarrow> string list \<Rightarrow> obj list list \<Rightarrow> (nat \<times> string) list \<Rightarrow>
     py_error + (string \<times> alias_map list) list" where
  "build_alias_info in_alias labels_list blocks alloc_sites =
     for_each (\<lambda>lbl alias_info.
         and_then (lookup (dict_zip labels_list blocks) lbl) (\<lambda>block.
         and_then (alias_snapshots alloc_sites block (get_or in_alias lbl [])) (\<lambda>alias_maps.
           Inr (AList.update lbl alias_maps alias_info))))
       labels_list []"

subsection \<open>Memory liveness\<close>

definition initialize_liveness_states :: "string list \<Rightarrow> (string \<times> sites) list \<times> (string \<times> sites) list" where
  "initialize_liveness_states labels_list =
     (fold (\<lambda>lbl d. AList.update lbl {} d) labels_list [],
      fold (\<lambda>lbl d. AList.update lbl {} d) labels_list [])"

definition compute_out_set :: "cfg \<Rightarrow> string \<Rightarrow> (string \<times> sites) list \<Rightarrow> py_error + sites" where
  "compute_out_set cfg lbl live_in =
     for_each (\<lambda>succ out_set. and_then (lookup live_in succ) (\<lambda>s. Inr (out_set \<union> s)))
       (get_or cfg lbl []) {}"

definition analyze_memory_uses_body :: "obj list \<Rightarrow> alias_map list \<Rightarrow> nat \<Rightarrow> sites \<Rightarrow> py_error + sites" where
  "analyze_memory_uses_body block alias_maps idx live_set =
     and_then (item block idx) (\<lambda>ob.
     and_then (item alias_maps idx) (\<lambda>alias_map.
       case op (snd ob) of
         None \<Rightarrow> Inr live_set
       | Some opc \<Rightarrow>
           (let as = args_or_empty (snd ob) in
            if opc = ''ret'' then
              (if as \<noteq> [] then Inr (live_set \<union> get_or alias_map (hd as) {}) else Inr live_set)
            else if opc = ''store'' then
              and_then (first_item as) (\<lambda>p. Inr (live_set \<union> get_or alias_map p {}))
            else if opc = ''load'' then
              and_then (first_item as) (\<lambda>p. Inr (live_set \<union> get_or alias_map p {}))
            else if opc = ''free'' then
              and_then (first_item as) (\<lambda>p. Inr (live_set - get_or alias_map p {}))
            else if opc = ''call'' then
              Inr (fold (\<lambda>arg l. l \<union> get_or alias_map arg {}) as live_set)
            else Inr live_set)))"

definition analyze_memory_uses :: "obj list \<Rightarrow> sites \<Rightarrow> alias_map list \<Rightarrow> py_error + sites" where
  "analyze_memory_uses block live_out_set alias_maps =
     for_each (analyze_memory_uses_body block alias_maps) (rev [0..<length block]) live_out_set"

definition memory_liveness_body ::
  "cfg \<Rightarrow> (string \<times> obj list) list \<Rightarrow> (string \<times> alias_map list) list \<Rightarrow> string \<Rightarrow>
     (string \<times> sites) list \<times> (string \<times> sites) list \<times> bool \<Rightarrow>
     py_error + (string \<times> sites) list \<times> (string \<times> sites) list \<times> bool" where
  "memory_liveness_body cfg block_map alias_info lbl st =
     (case st of (live_in, live_out, changed) \<Rightarrow>
        and_then (compute_out_set cfg lbl live_in) (\<lambda>out_set.
        and_then (lookup live_in lbl) (\<lambda>old_in.
        and_then (lookup block_map lbl) (\<lambda>block.
        and_then (lookup alias_info lbl) (\<lambda>alias_maps.
        and_then (analyze_memory_uses block out_set alias_maps) (\<lambda>in_set.
          Inr (AList.update lbl in_set live_in, AList.update lbl out_set live_out,
               changed \<or> in_set \<noteq> old_in)))))))"

partial_function (option) memory_liveness_loop ::
  "cfg \<Rightarrow> (string \<times> obj list) list \<Rightarrow> (string \<times> alias_map list) list \<Rightarrow> string list \<Rightarrow>
     (string \<times> sites) list \<Rightarrow> (string \<times> sites) list \<Rightarrow>
     (py_error + (string \<times> sites) list \<times> (string \<times> sites) list) option" where
  "memory_liveness_loop cfg block_map alias_info labels_list live_in live_out =
     (case for_each (memory_liveness_body cfg block_map alias_info) (rev labels_list)
             (live_in, live_out, False) of
        Inl e \<Rightarrow> Some (Inl e)
      | Inr (live_in', live_out', changed) \<Rightarrow>
          if changed then memory_liveness_loop cfg block_map alias_info labels_list live_in' live_out'
          else Some (Inr (live_in', live_out')))"

definition memory_liveness_analysis ::
  "obj list list \<Rightarrow> cfg \<Rightarrow> string list \<Rightarrow> (string \<times> alias_map list) list \<Rightarrow>
     (py_error + (string \<times> sites) list \<times> (string \<times> sites) list) option" where
  "memory_liveness_analysis blocks cfg labels_list alias_info =
     (case initialize_liveness_states labels_list of (live_in, live_out) \<Rightarrow>
        memory_liveness_loop cfg (dict_zip labels_list blocks) alias_info labels_list live_in live_out)"

subsection \<open>Dead-store elimination\<close>

definition is_dead_store :: "instr \<Rightarrow> alias_map \<Rightarrow> sites \<Rightarrow> py_error + bool" where
  "is_dead_store instr alias_map live_vars =
     (if op instr = Some ''store'' then
        and_then (key (args instr)) (\<lambda>as.
        and_then (first_item as) (\<lambda>target.
          let points_to = get_or alias_map target {} in
          Inr (points_to \<inter> live_vars = {} \<and> ''unknown'' \<notin> points_to \<and> ''unknown'' \<notin> live_vars)))
      else Inr False)"

definition update_live_vars :: "instr \<Rightarrow> alias_map \<Rightarrow> sites \<Rightarrow> sites" where
  "update_live_vars instr alias_map live_vars =
     (let as = args_or_empty instr in
      if op instr = Some ''load'' \<and> as \<noteq> [] then live_vars \<union> get_or alias_map (hd as) {}
      else if op instr = Some ''free'' \<and> as \<noteq> [] then live_vars - get_or alias_map (hd as) {}
      else if op instr = Some ''ret'' \<and> as \<noteq> [] then live_vars \<union> get_or alias_map (hd as) {}
      else if op instr = Some ''call'' then fold (\<lambda>arg l. l \<union> get_or alias_map arg {}) as live_vars
      else live_vars)"

definition remove_dead_stores_body ::
  "obj list \<Rightarrow> alias_map list \<Rightarrow> nat \<Rightarrow> sites \<times> obj list \<Rightarrow> py_error + sites \<times> obj list" where
  "remove_dead_stores_body block alias_maps idx st =
     (case st of (live_vars, new_block) \<Rightarrow>
        and_then (item block idx) (\<lambda>ob.
        and_then (item alias_maps idx) (\<lambda>alias_map.
        and_then (is_dead_store (snd ob) alias_map live_vars) (\<lambda>dead.
          if dead then Inr (live_vars, new_block)
          else Inr (update_live_vars (snd ob) alias_map live_vars, new_block @ [ob])))))"

definition remove_dead_stores_block :: "obj list \<Rightarrow> alias_map list \<Rightarrow> sites \<Rightarrow> py_error + obj list" where
  "remove_dead_stores_block block alias_maps live_out_set =
     and_then (for_each (remove_dead_stores_body block alias_maps) (rev [0..<length block])
                 (live_out_set, []))
       (\<lambda>(live_vars, new_block). Inr (rev new_block))"

definition remove_dead_stores ::
  "obj list \<Rightarrow> (string \<times> alias_map list) list \<Rightarrow> (string \<times> sites) list \<Rightarrow> py_error + obj list" where
  "remove_dead_stores is alias_info live_out =
     (let blocks = form_blocks_loop (op \<circ> snd) [] is in
      and_then (construct_cfg blocks) (\<lambda>(cfg, labels_list).
      and_then (for_each (\<lambda>lbl block_map.
                   and_then (lookup block_map lbl) (\<lambda>block.
                   and_then (lookup alias_info lbl) (\<lambda>alias_maps.
                   and_then (lookup live_out lbl) (\<lambda>live_out_set.
                   and_then (remove_dead_stores_block block alias_maps live_out_set) (\<lambda>block'.
                     Inr (AList.update lbl block' block_map))))))
                 labels_list (dict_zip labels_list blocks)) (\<lambda>block_map.
      and_then (collect_results (map (lookup block_map) labels_list)) (\<lambda>bs.
        Inr (flatten bs)))))"

definition optimize_function :: "func \<Rightarrow> (py_error + func) option" where
  "optimize_function f =
     (let is = objs (instrs f);
          blocks = form_blocks_loop (op \<circ> snd) [] is
      in case construct_cfg blocks of
           Inl e \<Rightarrow> Some (Inl e)
         | Inr (cfg, labels_list) \<Rightarrow>
             (let alloc_sites = collect_alloc_sites is;
                  func_args = get_func_args f
              in case alias_analysis blocks cfg labels_list func_args alloc_sites of
                   None \<Rightarrow> None
                 | Some (Inl e) \<Rightarrow> Some (Inl e)
                 | Some (Inr (in_alias, out_alias)) \<Rightarrow>
                     (case build_alias_info in_alias labels_list blocks alloc_sites of
                        Inl e \<Rightarrow> Some (Inl e)
                      | Inr alias_info \<Rightarrow>
                          (case memory_liveness_analysis blocks cfg labels_list alias_info of
                             None \<Rightarrow> None
                           | Some (Inl e) \<Rightarrow> Some (Inl e)
                           | Some (Inr (live_in, live_out)) \<Rightarrow>
                               (case remove_dead_stores is alias_info live_out of
                                  Inl e \<Rightarrow> Some (Inl e)
                                | Inr is' \<Rightarrow> Some (Inr (f\<lparr>instrs := map snd is'\<rparr>)))))))"

text \<open>
  The file defines \<open>remove_dead_stores\<close> twice. Python keeps the second definition,
  modelled above. The first, which the second shadows, also drops a store when the
  store met just before in the backward scan had the same alias set; this is its loop.
\<close>

definition remove_dead_stores_shadowed_body ::
  "obj list \<Rightarrow> alias_map list \<Rightarrow> nat \<Rightarrow> sites \<times> obj list \<times> sites option \<Rightarrow>
     py_error + sites \<times> obj list \<times> sites option" where
  "remove_dead_stores_shadowed_body block alias_maps idx st =
     (case st of (live_vars, new_block, last_store_target) \<Rightarrow>
        and_then (item block idx) (\<lambda>ob.
          if op (snd ob) = Some ''store'' then
            and_then (key (args (snd ob))) (\<lambda>as.
            and_then (first_item as) (\<lambda>target.
            and_then (item alias_maps idx) (\<lambda>alias_map.
              let alias_set = get_or alias_map target {} in
              if last_store_target = Some alias_set then Inr (live_vars, new_block, last_store_target)
              else
                and_then (is_dead_store (snd ob) alias_map live_vars) (\<lambda>dead.
                  if dead then Inr (live_vars, new_block, last_store_target)
                  else Inr (update_live_vars (snd ob) alias_map live_vars, new_block @ [ob],
                            Some alias_set)))))
          else
            and_then (item alias_maps idx) (\<lambda>alias_map.
              Inr (update_live_vars (snd ob) alias_map live_vars, new_block @ [ob],
                   last_store_target))))"

definition remove_dead_stores_shadowed_block :: "obj list \<Rightarrow> alias_map list \<Rightarrow> sites \<Rightarrow> py_error + obj list" where
  "remove_dead_stores_shadowed_block block alias_maps live_out_set =
     and_then (for_each (remove_dead_stores_shadowed_body block alias_maps) (rev [0..<length block])
                 (live_out_set, [], None))
       (\<lambda>(live_vars, new_block, last_store_target). Inr (rev new_block))"

subsection \<open>Properties of dead-store elimination\<close>

definition ex_dse :: "instr list" where
  "ex_dse = [op_i ''p'' ''alloc'' [''1''], eff_i ''store'' [''p'', ''4''],
     eff_i ''store'' [''p'', ''5''], op_i ''x'' ''load'' [''p'']]"

lemmas dse_defs = optimize_function_def objs_def main_func_def
  TERMINATORS_def construct_cfg_def initialize_labels_def build_cfg_edges_def build_cfg_edges_body_def
  add_cfg_edge_def dict_extend_def
  str_nat.simps collect_alloc_sites_def collect_alloc_sites_body_def get_func_args_def
  alias_analysis_def initialize_states_def initialize_func_args_state_def dict_zip_def
  alias_analysis_loop.simps alias_analysis_body_def merge_predecessor_states_def analyze_block_def
  analyze_block_body_def dict_eq_def
  build_alias_info_def update_state_based_on_instr_def
  memory_liveness_analysis_def initialize_liveness_states_def memory_liveness_loop.simps
  memory_liveness_body_def compute_out_set_def analyze_memory_uses_def analyze_memory_uses_body_def
  remove_dead_stores_def remove_dead_stores_block_def remove_dead_stores_body_def
  is_dead_store_def update_live_vars_def flatten_def Let_def

text \<open>
  C3. On \<open>p = alloc 1; store p 4; store p 5; x = load p;\<close> the first store should be
  removed. The function comes out unchanged: scanning backward, the load makes the
  site of \<open>p\<close> live, and a store never ends the liveness of its target in
  \<open>update_live_vars\<close>, so neither store is dead.
\<close>

theorem dse_keeps_overwritten_store:
  "optimize_function (main_func ex_dse) = Some (Inr (main_func ex_dse))"
  by (simp add: ex_dse_def dse_defs instr_defs py_defs)

text \<open>
  The shadowed definition does remove the first store, on the alias maps and the
  live-out set that the analyses compute for this block.
\<close>

lemma shadowed_definition_removes_first_store:
  "remove_dead_stores_shadowed_block (objs ex_dse)
     [[], [(''p'', {''alloc_0''})], [(''p'', {''alloc_0''})], [(''p'', {''alloc_0''})]] {} =
   Inr [(0, op_i ''p'' ''alloc'' [''1'']), (2, eff_i ''store'' [''p'', ''5'']),
        (3, op_i ''x'' ''load'' [''p''])]"
  by (simp add: remove_dead_stores_shadowed_block_def remove_dead_stores_shadowed_body_def
      objs_def ex_dse_def is_dead_store_def update_live_vars_def instr_defs py_defs Let_def)

lemma is_dead_store_store:
  assumes "op i = Some ''store''" "args i = Some (target # rest)"
  shows "is_dead_store i am live =
     Inr (get_or am target {} \<inter> live = {} \<and> ''unknown'' \<notin> get_or am target {} \<and> ''unknown'' \<notin> live)"
  using assms by (simp add: is_dead_store_def and_then_def key_def first_item_def Let_def)

lemma remove_dead_stores_body_cases:
  assumes "remove_dead_stores_body block alias_maps idx (live_vars, new_block) = Inr (live_vars', new_block')"
  shows "idx < length block \<and> idx < length alias_maps \<and>
     (is_dead_store (snd (block ! idx)) (alias_maps ! idx) live_vars = Inr True \<and>
        live_vars' = live_vars \<and> new_block' = new_block
      \<or> is_dead_store (snd (block ! idx)) (alias_maps ! idx) live_vars = Inr False \<and>
        live_vars' = update_live_vars (snd (block ! idx)) (alias_maps ! idx) live_vars \<and>
        new_block' = new_block @ [block ! idx])"
  using assms
  by (auto simp: remove_dead_stores_body_def and_then_Inr_iff item_Inr_iff split: if_splits)

lemma remove_dead_stores_loop_grows:
  "for_each (remove_dead_stores_body block alias_maps) idxs (live_vars, new_block) = Inr (live_vars', new_block')
     \<Longrightarrow> set new_block \<subseteq> set new_block'"
proof (induction idxs arbitrary: live_vars new_block)
  case Nil
  then show ?case by simp
next
  case (Cons i idxs)
  from Cons.prems obtain l1 nb1 where
    step: "remove_dead_stores_body block alias_maps i (live_vars, new_block) = Inr (l1, nb1)" and
    rest: "for_each (remove_dead_stores_body block alias_maps) idxs (l1, nb1) = Inr (live_vars', new_block')"
    by (auto simp: and_then_Inr_iff)
  from remove_dead_stores_body_cases [OF step] have "set new_block \<subseteq> set nb1" by auto
  with Cons.IH [OF rest] show ?case by blast
qed

lemma remove_dead_stores_loop_keeps:
  assumes "for_each (remove_dead_stores_body block alias_maps) idxs (live_vars, new_block) = Inr (live_vars', new_block')"
    and "idx \<in> set idxs"
    and "op (snd (block ! idx)) = Some ''store''"
    and "args (snd (block ! idx)) = Some (target # rest)"
    and "''unknown'' \<in> get_or (alias_maps ! idx) target {}"
  shows "block ! idx \<in> set new_block'"
  using assms(1,2)
proof (induction idxs arbitrary: live_vars new_block)
  case Nil
  then show ?case by simp
next
  case (Cons i idxs)
  from Cons.prems(1) obtain l1 nb1 where
    step: "remove_dead_stores_body block alias_maps i (live_vars, new_block) = Inr (l1, nb1)" and
    rest: "for_each (remove_dead_stores_body block alias_maps) idxs (l1, nb1) = Inr (live_vars', new_block')"
    by (auto simp: and_then_Inr_iff)
  show ?case
  proof (cases "i = idx")
    case True
    from remove_dead_stores_body_cases [OF step] True assms(3-5)
    have "block ! idx \<in> set nb1"
      by (auto simp: is_dead_store_store)
    with remove_dead_stores_loop_grows [OF rest] show ?thesis by blast
  next
    case False
    with Cons.prems(2) have "idx \<in> set idxs" by simp
    from Cons.IH [OF rest this] show ?thesis .
  qed
qed

text \<open>
  C8. Take a store in a block, with target \<open>target\<close>, and the alias map recorded for
  it. One step of the backward loop of \<open>remove_dead_stores\<close> drops the store exactly
  when the points-to set of the target is disjoint from the live set and neither
  holds \<open>unknown\<close>; otherwise the store is appended to the new block. So over the
  whole block, a store whose target may point to \<open>unknown\<close> is in the result.
\<close>

theorem dead_store_removal_needs_no_unknown:
  assumes "idx < length block"
    and "op (snd (block ! idx)) = Some ''store''"
    and "args (snd (block ! idx)) = Some (target # rest)"
  shows "(remove_dead_stores_body block alias_maps idx (live_vars, new_block) = Inr (live_vars', new_block') \<longrightarrow>
            (if get_or (alias_maps ! idx) target {} \<inter> live_vars = {} \<and>
                ''unknown'' \<notin> get_or (alias_maps ! idx) target {} \<and> ''unknown'' \<notin> live_vars
             then new_block' = new_block
             else new_block' = new_block @ [block ! idx])) \<and>
         (remove_dead_stores_block block alias_maps live_out_set = Inr res \<and>
            ''unknown'' \<in> get_or (alias_maps ! idx) target {} \<longrightarrow> block ! idx \<in> set res)"
proof (intro conjI impI)
  assume "remove_dead_stores_body block alias_maps idx (live_vars, new_block) = Inr (live_vars', new_block')"
  from remove_dead_stores_body_cases [OF this] assms(2,3)
  show "if get_or (alias_maps ! idx) target {} \<inter> live_vars = {} \<and>
           ''unknown'' \<notin> get_or (alias_maps ! idx) target {} \<and> ''unknown'' \<notin> live_vars
        then new_block' = new_block
        else new_block' = new_block @ [block ! idx]"
    by (auto simp: is_dead_store_store)
next
  assume a: "remove_dead_stores_block block alias_maps live_out_set = Inr res \<and>
            ''unknown'' \<in> get_or (alias_maps ! idx) target {}"
  then obtain l nb where
    loop: "for_each (remove_dead_stores_body block alias_maps) (rev [0..<length block]) (live_out_set, []) = Inr (l, nb)"
    and res: "res = rev nb"
    by (auto simp: remove_dead_stores_block_def and_then_Inr_iff)
  have "idx \<in> set (rev [0..<length block])" using assms(1) by simp
  from remove_dead_stores_loop_keeps [OF loop this assms(2,3)] a res
  show "block ! idx \<in> set res" by simp
qed

theorem dead_store_removal_needs_no_unknown_witness:
  "remove_dead_stores_body [(0, eff_i ''store'' [''p'', ''v''])] [[(''p'', {''unknown''})]] 0 ({}, []) =
      Inr ({}, [(0, eff_i ''store'' [''p'', ''v''])]) \<and>
   remove_dead_stores_block [(0, eff_i ''store'' [''p'', ''v''])] [[(''p'', {''unknown''})]] {} =
      Inr [(0, eff_i ''store'' [''p'', ''v''])] \<and>
   (0, eff_i ''store'' [''p'', ''v'']) \<in> set [(0, eff_i ''store'' [''p'', ''v''])]"
proof -
  have b: "remove_dead_stores_body [(0, eff_i ''store'' [''p'', ''v''])] [[(''p'', {''unknown''})]] 0 ({}, []) =
      Inr ({}, [(0, eff_i ''store'' [''p'', ''v''])])"
    by (simp add: remove_dead_stores_body_def is_dead_store_def update_live_vars_def
        instr_defs py_defs Let_def)
  have r: "remove_dead_stores_block [(0, eff_i ''store'' [''p'', ''v''])] [[(''p'', {''unknown''})]] {} =
      Inr [(0, eff_i ''store'' [''p'', ''v''])]"
    by (simp add: remove_dead_stores_block_def remove_dead_stores_body_def is_dead_store_def
        update_live_vars_def instr_defs py_defs Let_def)
  have h1: "0 < length [(0::nat, eff_i ''store'' [''p'', ''v''])]" by simp
  have h2: "op (snd ([(0::nat, eff_i ''store'' [''p'', ''v''])] ! 0)) = Some ''store''"
    by (simp add: eff_i_def no_instr_def)
  have h3: "args (snd ([(0::nat, eff_i ''store'' [''p'', ''v''])] ! 0)) = Some (''p'' # [''v''])"
    by (simp add: eff_i_def no_instr_def)
  from dead_store_removal_needs_no_unknown [OF h1 h2 h3, of "[[(''p'', {''unknown''})]]" "{}" "[]"
      "{}" "[(0, eff_i ''store'' [''p'', ''v''])]" "{}" "[(0, eff_i ''store'' [''p'', ''v''])]"] b r
  show ?thesis by (simp add: get_or_def)
qed

section \<open>The passes on a store of objects\<close>

text \<open>
  A pass receives a reference to the dictionary of a function and works on the objects
  it reaches from there: the dictionary itself, the list object under its key
  \<open>instrs\<close>, and the dictionaries of the instructions that the list refers to. What
  a pass leaves alone can only be said where these objects have an identity and can
  be shared, so this section runs the passes on a store.

  A reference is a number. The store has the dictionaries of the functions, the list
  objects and the dictionaries of the instructions, each addressed by references.
  The values under the keys \<open>name\<close>, \<open>args\<close> and \<open>type\<close> of a function, and under
  every key of an instruction, are data that no pass updates in place; the value
  under \<open>instrs\<close> is a reference to a list object, and a list object holds
  references to instructions. Two functions may refer to the same list, and two
  lists, or two positions of one list, to the same instruction. The lists that a
  pass builds and then drops (the blocks) are values; the list it leaves in the
  function is a new object of the store, and \<open>next_list\<close> is the first reference
  that no list object has been given yet.

  A pass that raises is represented by its exception alone, as in the sections
  above; the statements of this section are about a pass that returns.
\<close>

type_synonym ref = nat

record func_obj =
  oname :: string
  oargs :: "(string \<times> bril_type) list option"
  otype :: "bril_type option"
  oinstrs :: ref

record store =
  func_at :: "ref \<Rightarrow> func_obj"
  list_at :: "ref \<Rightarrow> ref list"
  instr_at :: "ref \<Rightarrow> instr"
  next_list :: ref

text \<open>
  \<open>instr_refs\<close> is \<open>func['instrs']\<close> read as the list of its elements, and \<open>func_of\<close>
  the function as a value: what \<open>json.dump\<close> would print for it.
\<close>

definition instr_refs :: "store \<Rightarrow> ref \<Rightarrow> ref list" where
  "instr_refs s f = list_at s (oinstrs (func_at s f))"

definition func_of :: "store \<Rightarrow> ref \<Rightarrow> func" where
  "func_of s f = \<lparr>fname = oname (func_at s f), fargs = oargs (func_at s f),
     ftype = otype (func_at s f), instrs = map (instr_at s) (instr_refs s f)\<rparr>"

text \<open>
  \<open>func['instrs'] = xs\<close> for a list \<open>xs\<close> that the pass has just built: the list
  becomes a new object, and the key \<open>instrs\<close> of the function refers to it. The list
  object that the key referred to before is not touched.
\<close>

definition new_list :: "ref list \<Rightarrow> store \<Rightarrow> ref \<times> store" where
  "new_list xs s =
     (next_list s, s\<lparr>list_at := (list_at s)(next_list s := xs), next_list := Suc (next_list s)\<rparr>)"

definition set_instrs :: "ref \<Rightarrow> ref \<Rightarrow> store \<Rightarrow> store" where
  "set_instrs f l s = s\<lparr>func_at := (func_at s)(f := (func_at s f)\<lparr>oinstrs := l\<rparr>)\<rparr>"

definition assign_instrs :: "ref \<Rightarrow> ref list \<Rightarrow> store \<Rightarrow> store" where
  "assign_instrs f xs s = (case new_list xs s of (l, s') \<Rightarrow> set_instrs f l s')"

subsection \<open>Global dead code elimination on the store\<close>

text \<open>
  \<open>func["instrs"].remove(instr)\<close> removes from the list object itself. It drops the
  first element that is \<open>instr\<close> or equal to it.
\<close>

fun list_remove_ref :: "store \<Rightarrow> ref \<Rightarrow> ref list \<Rightarrow> ref list" where
  "list_remove_ref s x [] = []"
| "list_remove_ref s x (y # ys) =
     (if y = x \<or> instr_eq (instr_at s y) (instr_at s x) then ys else y # list_remove_ref s x ys)"

lemma length_list_remove_ref_le: "length (list_remove_ref s x xs) \<le> length xs"
  by (induction xs) auto

lemma length_list_remove_ref_mem: "x \<in> set xs \<Longrightarrow> length (list_remove_ref s x xs) < length xs"
  by (induction xs) (auto simp: less_Suc_eq_le length_list_remove_ref_le)

text \<open>
  The second \<open>for\<close> loop of an iteration. The iterator runs over the list object \<open>l\<close>
  that \<open>func["instrs"]\<close> gave when the loop started, with its index \<open>i\<close>; each removal
  reads \<open>func["instrs"]\<close> again and updates that list object in the store. No
  pass assigns to the key in between, so it is the list being iterated over, the
  element is found in it, and \<open>remove\<close> does not raise.
\<close>

function dce_sweep_store :: "string set \<Rightarrow> ref \<Rightarrow> ref \<Rightarrow> nat \<Rightarrow> store \<Rightarrow> bool \<Rightarrow> store \<times> bool" where
  "dce_sweep_store used f l i s converge =
     (if i < length (list_at s l) then
        (if (case dest (instr_at s (list_at s l ! i)) of Some d \<Rightarrow> d \<notin> used | None \<Rightarrow> False)
         then dce_sweep_store used f l (Suc i)
                (s\<lparr>list_at := (list_at s)
                     (oinstrs (func_at s f) := list_remove_ref s (list_at s l ! i) (instr_refs s f))\<rparr>)
                False
         else dce_sweep_store used f l (Suc i) s converge)
      else (s, converge))"
  by pat_completeness auto
termination
proof (relation "measure (\<lambda>(used, f, l, i, s, converge). length (list_at s l) - i)")
  fix used :: "string set" and f l i :: nat and s :: store and converge :: bool
  assume "i < length (list_at s l)"
  then show "((used, f, l, Suc i,
       s\<lparr>list_at := (list_at s)
            (oinstrs (func_at s f) := list_remove_ref s (list_at s l ! i) (instr_refs s f))\<rparr>, False),
      (used, f, l, i, s, converge))
      \<in> measure (\<lambda>(used, f, l, i, s, converge). length (list_at s l) - i)"
    using length_list_remove_ref_le [of s "list_at s l ! i" "list_at s l"]
    by (auto simp: instr_refs_def)
qed auto

declare dce_sweep_store.simps [simp del]

text \<open>The sweep writes one list object and nothing else, and the list does not grow.\<close>

lemma dce_sweep_store_frame:
  "dce_sweep_store used f l i s c = (s', c') \<Longrightarrow>
     func_at s' = func_at s \<and> instr_at s' = instr_at s \<and> next_list s' = next_list s \<and>
     (\<forall>k. k \<noteq> oinstrs (func_at s f) \<longrightarrow> list_at s' k = list_at s k)"
proof (induction used f l i s c rule: dce_sweep_store.induct)
  case (1 used f l i s converge)
  note unfold = dce_sweep_store.simps [of used f l i s converge]
  show ?case
  proof (cases "i < length (list_at s l)")
    case False
    with "1.prems" unfold show ?thesis by simp
  next
    case True
    show ?thesis
    proof (cases "case dest (instr_at s (list_at s l ! i)) of Some d \<Rightarrow> d \<notin> used | None \<Rightarrow> False")
      case dead: True
      define s1 where "s1 = s\<lparr>list_at := (list_at s)
          (oinstrs (func_at s f) := list_remove_ref s (list_at s l ! i) (instr_refs s f))\<rparr>"
      from True dead "1.prems" unfold
      have "dce_sweep_store used f l (Suc i) s1 False = (s', c')" by (simp add: s1_def)
      from "1.IH"(1) [OF True dead this [unfolded s1_def]]
      show ?thesis by (simp add: s1_def)
    next
      case live: False
      from True live "1.prems" unfold
      have "dce_sweep_store used f l (Suc i) s converge = (s', c')" by simp
      from "1.IH"(2) [OF True live this] show ?thesis .
    qed
  qed
qed

lemma dce_sweep_store_length:
  "dce_sweep_store used f l i s c = (s', c') \<Longrightarrow> l = oinstrs (func_at s f) \<Longrightarrow>
     length (list_at s' l) \<le> length (list_at s l) \<and>
     (c \<and> \<not> c' \<longrightarrow> length (list_at s' l) < length (list_at s l))"
proof (induction used f l i s c rule: dce_sweep_store.induct)
  case (1 used f l i s converge)
  note unfold = dce_sweep_store.simps [of used f l i s converge]
  show ?case
  proof (cases "i < length (list_at s l)")
    case False
    with "1.prems" unfold show ?thesis by simp
  next
    case True
    show ?thesis
    proof (cases "case dest (instr_at s (list_at s l ! i)) of Some d \<Rightarrow> d \<notin> used | None \<Rightarrow> False")
      case dead: True
      define s1 where "s1 = s\<lparr>list_at := (list_at s)
          (oinstrs (func_at s f) := list_remove_ref s (list_at s l ! i) (instr_refs s f))\<rparr>"
      from True dead "1.prems" unfold
      have r: "dce_sweep_store used f l (Suc i) s1 False = (s', c')" by (simp add: s1_def)
      have l1: "l = oinstrs (func_at s1 f)" using "1.prems"(2) by (simp add: s1_def)
      from "1.IH"(1) [OF True dead r [unfolded s1_def] l1 [unfolded s1_def]]
      have "length (list_at s' l) \<le> length (list_at s1 l)" by (simp add: s1_def)
      moreover have "length (list_at s1 l) < length (list_at s l)"
        using True "1.prems"(2)
        by (simp add: s1_def instr_refs_def length_list_remove_ref_mem)
      ultimately show ?thesis by simp
    next
      case live: False
      from True live "1.prems" unfold
      have "dce_sweep_store used f l (Suc i) s converge = (s', c')" by simp
      from "1.IH"(2) [OF True live this "1.prems"(2)] show ?thesis .
    qed
  qed
qed

text \<open>The \<open>while not converge\<close> loop, and the pass.\<close>

function global_dce_loop_store :: "string set \<Rightarrow> ref \<Rightarrow> store \<Rightarrow> store" where
  "global_dce_loop_store used f s =
     (let used' = collect_used used (map (instr_at s) (instr_refs s f));
          r = dce_sweep_store used' f (oinstrs (func_at s f)) 0 s True
      in if snd r then fst r else global_dce_loop_store used' f (fst r))"
  by pat_completeness auto
termination
proof (relation "measure (\<lambda>(used, f, s). length (instr_refs s f))")
  fix used :: "string set" and f :: ref and s :: store and used' r
  assume "used' = collect_used used (map (instr_at s) (instr_refs s f))"
    "r = dce_sweep_store used' f (oinstrs (func_at s f)) 0 s True" "\<not> snd r"
  then have e: "dce_sweep_store used' f (oinstrs (func_at s f)) 0 s True = (fst r, False)"
    by (simp add: prod_eq_iff)
  from dce_sweep_store_length [OF e] dce_sweep_store_frame [OF e]
  show "((used', f, fst r), (used, f, s)) \<in> measure (\<lambda>(used, f, s). length (instr_refs s f))"
    by (simp add: instr_refs_def)
qed simp

declare global_dce_loop_store.simps [simp del]

definition global_dce_store :: "ref \<Rightarrow> store \<Rightarrow> store" where
  "global_dce_store f s = global_dce_loop_store {} f s"

lemma global_dce_loop_store_frame:
  "func_at (global_dce_loop_store used f s) = func_at s \<and>
   instr_at (global_dce_loop_store used f s) = instr_at s \<and>
   next_list (global_dce_loop_store used f s) = next_list s \<and>
   (\<forall>k. k \<noteq> oinstrs (func_at s f) \<longrightarrow> list_at (global_dce_loop_store used f s) k = list_at s k)"
proof (induction used f s rule: global_dce_loop_store.induct)
  case (1 used f s)
  define used' where "used' = collect_used used (map (instr_at s) (instr_refs s f))"
  define r where "r = dce_sweep_store used' f (oinstrs (func_at s f)) 0 s True"
  have e: "dce_sweep_store used' f (oinstrs (func_at s f)) 0 s True = (fst r, snd r)"
    by (simp add: r_def)
  note fr = dce_sweep_store_frame [OF e]
  show ?case
  proof (cases "snd r")
    case True
    then have "global_dce_loop_store used f s = fst r"
      by (subst global_dce_loop_store.simps) (simp add: Let_def used'_def r_def)
    with fr show ?thesis by simp
  next
    case False
    then have g: "global_dce_loop_store used f s = global_dce_loop_store used' f (fst r)"
      by (subst global_dce_loop_store.simps) (simp add: Let_def used'_def r_def)
    from "1.IH" [OF used'_def r_def False] fr show ?thesis
      unfolding g by simp
  qed
qed

subsection \<open>Local dead code elimination on the store\<close>

text \<open>
  The blocks of \<open>form_blocks\<close> are new lists of references to the instructions of
  the function. The scan pops from a block and reads the instructions; it writes
  nothing that outlives the pass until \<open>func['instrs'] = flatten(blocks)\<close>.
\<close>

function local_dce_scan_store ::
  "store \<Rightarrow> nat \<Rightarrow> ref list \<Rightarrow> (string \<rightharpoonup> nat) \<Rightarrow> py_error + ref list" where
  "local_dce_scan_store s i block last_def =
     (if i < length block then
        (let instr = instr_at s (block ! i);
             last_def1 = dict_pop_all (case args instr of Some as \<Rightarrow> as | None \<Rightarrow> []) last_def
         in case dest instr of
              None \<Rightarrow> local_dce_scan_store s (Suc i) block last_def1
            | Some d \<Rightarrow>
                (case last_def1 d of
                   None \<Rightarrow> local_dce_scan_store s (Suc i) block (last_def1(d \<mapsto> i))
                 | Some j \<Rightarrow>
                     (case list_pop block j of
                        Inl e \<Rightarrow> Inl e
                      | Inr block' \<Rightarrow> local_dce_scan_store s (Suc i) block' (last_def1(d \<mapsto> i)))))
      else Inr block)"
  by pat_completeness auto
termination
  by (relation "measure (\<lambda>(s, i, block, last_def). length block - i)")
     (auto simp: list_pop_def split: if_splits)

declare local_dce_scan_store.simps [simp del]

definition local_dce_store :: "ref \<Rightarrow> store \<Rightarrow> py_error + store" where
  "local_dce_store f s =
     (case collect_results (map (\<lambda>block. local_dce_scan_store s 0 block Map.empty)
             (form_blocks_loop (op \<circ> instr_at s) [] (instr_refs s f))) of
        Inl e \<Rightarrow> Inl e
      | Inr blocks \<Rightarrow> Inr (assign_instrs f (flatten blocks) s))"

subsection \<open>Local value numbering on the store\<close>

text \<open>
  The body of the main loop of \<open>lvn_block\<close> updates the dictionary of the
  instruction in place. \<open>lvn_body\<close> computes the dictionary as the body leaves it,
  the one it appends to \<open>done\<close>; here it is written back to the object. The tables
  of the block are local to \<open>lvn_block\<close>. \<open>get_variables_read_before_write\<close> and
  \<open>last_writes\<close> read the block before the loop starts, and \<open>form_blocks\<close> reads the
  function before the first block is numbered.
\<close>

definition lvn_body_store ::
  "ref \<times> bool \<Rightarrow> store \<times> lvn_state \<Rightarrow> py_error + store \<times> lvn_state" where
  "lvn_body_store al acc =
     (case al of (a, last_write) \<Rightarrow> case acc of (s, st) \<Rightarrow>
        and_then (lvn_body (instr_at s a, last_write) ([], st)) (\<lambda>(done, st').
          Inr (s\<lparr>instr_at := (instr_at s)(a := last done)\<rparr>, st')))"

definition lvn_block_store :: "string list \<Rightarrow> ref list \<Rightarrow> store \<Rightarrow> py_error + store" where
  "lvn_block_store prio block s =
     (let is = map (instr_at s) block;
          st = fold lvn_seed (set_iter prio (get_variables_read_before_write is))
                 \<lparr>var2num = \<lparr>table = [], next_id = 0\<rparr>, value2num = [], num2vars = [], num2const = []\<rparr>
      in and_then (for_each lvn_body_store (zip block (last_writes is)) (s, st))
           (\<lambda>(s', st'). Inr s'))"

definition lvn_func_store :: "string list \<Rightarrow> ref \<Rightarrow> store \<Rightarrow> py_error + store" where
  "lvn_func_store prio f s =
     (let blocks = form_blocks_loop (op \<circ> instr_at s) [] (instr_refs s f) in
      and_then (for_each (lvn_block_store prio) blocks s) (\<lambda>s'.
        Inr (assign_instrs f (flatten blocks) s')))"

text \<open>\<open>lvn\<close>, for the list of the functions of the program.\<close>

definition lvn_store :: "string list \<Rightarrow> ref list \<Rightarrow> store \<Rightarrow> py_error + store" where
  "lvn_store prio fs s = for_each (lvn_func_store prio) fs s"

subsection \<open>Dead-store elimination on the store\<close>

text \<open>
  \<open>optimize_function\<close> on an object. The identity of an instruction, \<open>id(instr)\<close>,
  is its reference. The analyses read the instructions; the only write is
  \<open>func['instrs'] = flatten(...)\<close> at the end of \<open>remove_dead_stores\<close>.
\<close>

definition optimize_function_store :: "ref \<Rightarrow> store \<Rightarrow> (py_error + store) option" where
  "optimize_function_store f s =
     (let is = map (\<lambda>a. (a, instr_at s a)) (instr_refs s f);
          blocks = form_blocks_loop (op \<circ> snd) [] is
      in case construct_cfg blocks of
           Inl e \<Rightarrow> Some (Inl e)
         | Inr (cfg, labels_list) \<Rightarrow>
             (let alloc_sites = collect_alloc_sites is;
                  func_args = get_func_args (func_of s f)
              in case alias_analysis blocks cfg labels_list func_args alloc_sites of
                   None \<Rightarrow> None
                 | Some (Inl e) \<Rightarrow> Some (Inl e)
                 | Some (Inr (in_alias, out_alias)) \<Rightarrow>
                     (case build_alias_info in_alias labels_list blocks alloc_sites of
                        Inl e \<Rightarrow> Some (Inl e)
                      | Inr alias_info \<Rightarrow>
                          (case memory_liveness_analysis blocks cfg labels_list alias_info of
                             None \<Rightarrow> None
                           | Some (Inl e) \<Rightarrow> Some (Inl e)
                           | Some (Inr (live_in, live_out)) \<Rightarrow>
                               (case remove_dead_stores is alias_info live_out of
                                  Inl e \<Rightarrow> Some (Inl e)
                                | Inr is' \<Rightarrow> Some (Inr (assign_instrs f (map fst is') s)))))))"

subsection \<open>What a pass writes\<close>

text \<open>
  \<open>writes_instrs_in A s s'\<close>: from \<open>s\<close> to \<open>s'\<close> only dictionaries of instructions
  with a reference in \<open>A\<close> were written.
\<close>

definition writes_instrs_in :: "ref set \<Rightarrow> store \<Rightarrow> store \<Rightarrow> bool" where
  "writes_instrs_in A s s' \<longleftrightarrow>
     func_at s' = func_at s \<and> list_at s' = list_at s \<and> next_list s' = next_list s \<and>
     (\<forall>a. a \<notin> A \<longrightarrow> instr_at s' a = instr_at s a)"

lemma writes_instrs_in_refl: "writes_instrs_in A s s"
  by (simp add: writes_instrs_in_def)

lemma writes_instrs_in_trans:
  "writes_instrs_in A s s1 \<Longrightarrow> writes_instrs_in A s1 s2 \<Longrightarrow> writes_instrs_in A s s2"
  by (simp add: writes_instrs_in_def)

lemma writes_instrs_in_mono:
  "writes_instrs_in A s s' \<Longrightarrow> A \<subseteq> B \<Longrightarrow> writes_instrs_in B s s'"
  by (auto simp: writes_instrs_in_def)

lemma for_each_related:
  assumes step: "\<And>x t t'. x \<in> set xs \<Longrightarrow> body x t = Inr t' \<Longrightarrow> R t t'"
    and refl: "\<And>t. R t t"
    and trans: "\<And>t t1 t2. R t t1 \<Longrightarrow> R t1 t2 \<Longrightarrow> R t t2"
  shows "for_each body xs t = Inr t' \<Longrightarrow> R t t'"
  using step
proof (induction xs arbitrary: t)
  case Nil
  then show ?case using refl by simp
next
  case (Cons x xs)
  from Cons.prems(1) obtain t1 where b: "body x t = Inr t1" and r: "for_each body xs t1 = Inr t'"
    by (auto simp: and_then_Inr_iff)
  have "R t t1" by (rule Cons.prems(2) [OF _ b]) simp
  moreover have "R t1 t'"
  proof (rule Cons.IH [OF r])
    fix y u u'
    assume "y \<in> set xs" and "body y u = Inr u'"
    then show "R u u'" by (intro Cons.prems(2) [of y u u']) simp_all
  qed
  ultimately show ?case by (rule trans)
qed

lemma lvn_body_store_writes:
  "lvn_body_store (a, lw) (s, st) = Inr (s', st') \<Longrightarrow> writes_instrs_in {a} s s'"
  by (auto simp: lvn_body_store_def and_then_Inr_iff writes_instrs_in_def)

lemma lvn_block_store_writes:
  assumes "lvn_block_store prio block s = Inr s'"
  shows "writes_instrs_in (set block) s s'"
proof -
  define lws where "lws = last_writes (map (instr_at s) block)"
  from assms obtain st st' where
    r: "for_each lvn_body_store (zip block lws) (s, st) = Inr (s', st')"
    by (auto simp: lvn_block_store_def Let_def and_then_Inr_iff lws_def)
  have "writes_instrs_in (set block) (fst (s, st)) (fst (s', st'))"
  proof (rule for_each_related [where R = "\<lambda>t t'. writes_instrs_in (set block) (fst t) (fst t')",
        OF _ _ _ r])
    fix x t t'
    assume x: "x \<in> set (zip block lws)" and b: "lvn_body_store x t = Inr t'"
    from x have "fst x \<in> set block"
      using set_zip_leftD [of "fst x" "snd x" block lws] by simp
    moreover from b have "writes_instrs_in {fst x} (fst t) (fst t')"
      using lvn_body_store_writes [of "fst x" "snd x" "fst t" "snd t" "fst t'" "snd t'"] by simp
    ultimately show "writes_instrs_in (set block) (fst t) (fst t')"
      by (auto intro: writes_instrs_in_mono)
  qed (auto intro: writes_instrs_in_refl writes_instrs_in_trans)
  then show ?thesis by simp
qed

lemma lvn_func_store_writes:
  assumes "lvn_func_store prio f s = Inr s'"
  shows "\<exists>s1. writes_instrs_in (set (instr_refs s f)) s s1 \<and>
               s' = assign_instrs f (instr_refs s f) s1"
proof -
  define blocks where "blocks = form_blocks_loop (op \<circ> instr_at s) [] (instr_refs s f)"
  have c: "flatten blocks = instr_refs s f"
    by (simp add: blocks_def flatten_def concat_form_blocks_loop)
  from assms obtain s1 where r: "for_each (lvn_block_store prio) blocks s = Inr s1"
    and s': "s' = assign_instrs f (flatten blocks) s1"
    by (auto simp: lvn_func_store_def Let_def and_then_Inr_iff blocks_def)
  have "writes_instrs_in (set (instr_refs s f)) s s1"
  proof (rule for_each_related [where R = "writes_instrs_in (set (instr_refs s f))", OF _ _ _ r])
    fix block t t'
    assume "block \<in> set blocks" and "lvn_block_store prio block t = Inr t'"
    then have "set block \<subseteq> set (flatten blocks)" and "writes_instrs_in (set block) t t'"
      by (auto simp: flatten_def intro: lvn_block_store_writes)
    then show "writes_instrs_in (set (instr_refs s f)) t t'"
      unfolding c by (rule writes_instrs_in_mono [rotated])
  qed (auto intro: writes_instrs_in_refl writes_instrs_in_trans)
  with s' c show ?thesis by auto
qed

text \<open>
  \<open>only_instrs_changed f s s'\<close>: between the stores \<open>s\<close> and \<open>s'\<close> the function \<open>f\<close>
  keeps its name, parameters and type; the dictionary of every other function, every
  list object that existed in \<open>s\<close> other than the instruction list of \<open>f\<close>, and every
  instruction that the instruction list of \<open>f\<close> did not refer to, are as they were;
  and no list object has been given up. \<open>shares_nothing s f g\<close>: \<open>g\<close> is another
  function, whose list object exists and is not the one of \<open>f\<close>, and none of whose
  instructions is an instruction of \<open>f\<close>.
\<close>

definition only_instrs_changed :: "ref \<Rightarrow> store \<Rightarrow> store \<Rightarrow> bool" where
  "only_instrs_changed f s s' \<longleftrightarrow>
     oname (func_at s' f) = oname (func_at s f) \<and>
     oargs (func_at s' f) = oargs (func_at s f) \<and>
     otype (func_at s' f) = otype (func_at s f) \<and>
     (\<forall>g. g \<noteq> f \<longrightarrow> func_at s' g = func_at s g) \<and>
     (\<forall>l. l < next_list s \<and> l \<noteq> oinstrs (func_at s f) \<longrightarrow> list_at s' l = list_at s l) \<and>
     (\<forall>a. a \<notin> set (instr_refs s f) \<longrightarrow> instr_at s' a = instr_at s a) \<and>
     next_list s \<le> next_list s'"

definition shares_nothing :: "store \<Rightarrow> ref \<Rightarrow> ref \<Rightarrow> bool" where
  "shares_nothing s f g \<longleftrightarrow>
     g \<noteq> f \<and> oinstrs (func_at s g) < next_list s \<and>
     oinstrs (func_at s g) \<noteq> oinstrs (func_at s f) \<and>
     set (instr_refs s g) \<inter> set (instr_refs s f) = {}"

lemma assign_instrs_changes:
  assumes "writes_instrs_in (set (instr_refs s f)) s s1"
  shows "only_instrs_changed f s (assign_instrs f xs s1)"
  using assms
  by (auto simp: only_instrs_changed_def writes_instrs_in_def assign_instrs_def new_list_def
      set_instrs_def)

lemma global_dce_store_changes: "only_instrs_changed f s (global_dce_store f s)"
  using global_dce_loop_store_frame [of "{}" f s]
  by (simp add: only_instrs_changed_def global_dce_store_def)

lemma local_dce_store_changes:
  "local_dce_store f s = Inr s' \<Longrightarrow> only_instrs_changed f s s'"
  by (auto simp: local_dce_store_def split: sum.splits
      intro: assign_instrs_changes writes_instrs_in_refl)

lemma optimize_function_store_changes:
  "optimize_function_store f s = Some (Inr s') \<Longrightarrow> only_instrs_changed f s s'"
  by (auto simp: optimize_function_store_def Let_def split: sum.splits option.splits prod.splits
      intro: assign_instrs_changes writes_instrs_in_refl)

lemma lvn_func_store_changes:
  "lvn_func_store prio f s = Inr s' \<Longrightarrow> only_instrs_changed f s s'"
  using lvn_func_store_writes [of prio f s s'] by (auto intro: assign_instrs_changes)

lemma only_instrs_changed_other:
  assumes c: "only_instrs_changed f s s'" and g: "shares_nothing s f g"
  shows "func_of s' g = func_of s g"
proof -
  from c g have f: "func_at s' g = func_at s g"
    by (simp add: only_instrs_changed_def shares_nothing_def)
  from c g have l: "instr_refs s' g = instr_refs s g"
    by (simp add: only_instrs_changed_def shares_nothing_def instr_refs_def f)
  from c g have "\<forall>a \<in> set (instr_refs s g). instr_at s' a = instr_at s a"
    by (auto simp: only_instrs_changed_def shares_nothing_def)
  then have "map (instr_at s') (instr_refs s g) = map (instr_at s) (instr_refs s g)"
    by simp
  with f l show ?thesis by (simp add: func_of_def)
qed

text \<open>
  \<open>lvn\<close> runs over the functions of the program. It changes no function outside
  the program, no list object that existed before, and no instruction outside the
  functions of the program.
\<close>

lemma lvn_func_store_refs:
  assumes "lvn_func_store prio f s = Inr s1"
  shows "set (instr_refs s1 g) \<subseteq> set (instr_refs s g) \<union> set (instr_refs s f)"
proof -
  from lvn_func_store_writes [OF assms] obtain s0 where
    w: "writes_instrs_in (set (instr_refs s f)) s s0" and
    s1: "s1 = assign_instrs f (instr_refs s f) s0" by auto
  from w have "instr_refs s1 g = instr_refs s f \<or> instr_refs s1 g = instr_refs s g"
    unfolding s1
    by (auto simp: writes_instrs_in_def assign_instrs_def new_list_def set_instrs_def
        instr_refs_def)
  then show ?thesis by auto
qed

lemma lvn_store_changes:
  "lvn_store prio fs s = Inr s' \<Longrightarrow>
     (\<forall>g. oname (func_at s' g) = oname (func_at s g) \<and>
          oargs (func_at s' g) = oargs (func_at s g) \<and>
          otype (func_at s' g) = otype (func_at s g)) \<and>
     (\<forall>g. g \<notin> set fs \<longrightarrow> func_at s' g = func_at s g) \<and>
     (\<forall>l. l < next_list s \<longrightarrow> list_at s' l = list_at s l) \<and>
     (\<forall>a. a \<notin> (\<Union>f \<in> set fs. set (instr_refs s f)) \<longrightarrow> instr_at s' a = instr_at s a) \<and>
     next_list s \<le> next_list s'"
proof (induction fs arbitrary: s)
  case Nil
  then show ?case by (simp add: lvn_store_def)
next
  case (Cons f fs)
  from Cons.prems obtain s1 where
    one: "lvn_func_store prio f s = Inr s1" and rest: "lvn_store prio fs s1 = Inr s'"
    by (auto simp: lvn_store_def and_then_Inr_iff)
  from lvn_func_store_writes [OF one] obtain s0 where
    w: "writes_instrs_in (set (instr_refs s f)) s s0" and
    s1: "s1 = assign_instrs f (instr_refs s f) s0" by auto
  note ih = Cons.IH [OF rest]
  have fields: "oname (func_at s1 g) = oname (func_at s g) \<and>
      oargs (func_at s1 g) = oargs (func_at s g) \<and> otype (func_at s1 g) = otype (func_at s g)" for g
    using w unfolding s1
    by (simp add: writes_instrs_in_def assign_instrs_def new_list_def set_instrs_def)
  have others: "func_at s1 g = func_at s g" if "g \<noteq> f" for g
    using w that unfolding s1
    by (simp add: writes_instrs_in_def assign_instrs_def new_list_def set_instrs_def)
  have lists: "list_at s1 l = list_at s l" if "l < next_list s" for l
    using w that unfolding s1
    by (simp add: writes_instrs_in_def assign_instrs_def new_list_def set_instrs_def)
  have nxt: "next_list s1 = Suc (next_list s)"
    using w unfolding s1
    by (simp add: writes_instrs_in_def assign_instrs_def new_list_def set_instrs_def)
  have cells: "instr_at s1 a = instr_at s a" if "a \<notin> set (instr_refs s f)" for a
    using w that unfolding s1
    by (simp add: writes_instrs_in_def assign_instrs_def new_list_def set_instrs_def)
  have refs: "(\<Union>g \<in> set fs. set (instr_refs s1 g)) \<subseteq> (\<Union>g \<in> set (f # fs). set (instr_refs s g))"
    using lvn_func_store_refs [OF one] by fastforce
  show ?case
  proof (intro conjI allI impI)
    fix g
    show "oname (func_at s' g) = oname (func_at s g)" using ih fields [of g] by simp
    show "oargs (func_at s' g) = oargs (func_at s g)" using ih fields [of g] by simp
    show "otype (func_at s' g) = otype (func_at s g)" using ih fields [of g] by simp
    show "func_at s' g = func_at s g" if "g \<notin> set (f # fs)"
      using ih others [of g] that by simp
  next
    fix l
    assume "l < next_list s"
    then show "list_at s' l = list_at s l" using ih lists [of l] nxt by simp
  next
    fix a
    assume a: "a \<notin> (\<Union>g \<in> set (f # fs). set (instr_refs s g))"
    with refs have "a \<notin> (\<Union>g \<in> set fs. set (instr_refs s1 g))" by blast
    with ih have "instr_at s' a = instr_at s1 a" by blast
    with a cells [of a] show "instr_at s' a = instr_at s a" by simp
  next
    show "next_list s \<le> next_list s'" using ih nxt by simp
  qed
qed

subsection \<open>The passes on the store and on values\<close>

text \<open>
  On the function it is given, a pass on the store computes what the pass on values
  computes: always for the two dead code eliminations, which write no instruction,
  and for local value numbering when the list of the function has no instruction
  twice.
\<close>

lemma list_remove_ref_map:
  "map (instr_at s) (list_remove_ref s x ys) = list_remove (instr_at s x) (map (instr_at s) ys)"
  by (induction ys) (auto simp: instr_eq_refl)

lemma dce_sweep_store_pure:
  "dce_sweep_store used f l i s c = (s', c') \<Longrightarrow> l = oinstrs (func_at s f) \<Longrightarrow>
     dce_sweep used i (map (instr_at s) (list_at s l)) c = (map (instr_at s') (list_at s' l), c')"
proof (induction used f l i s c rule: dce_sweep_store.induct)
  case (1 used f l i s converge)
  note unfold = dce_sweep_store.simps [of used f l i s converge]
  note pure = dce_sweep.simps [of used i "map (instr_at s) (list_at s l)" converge]
  show ?case
  proof (cases "i < length (list_at s l)")
    case False
    with "1.prems" unfold pure show ?thesis by auto
  next
    case True
    show ?thesis
    proof (cases "case dest (instr_at s (list_at s l ! i)) of Some d \<Rightarrow> d \<notin> used | None \<Rightarrow> False")
      case dead: True
      define s1 where "s1 = s\<lparr>list_at := (list_at s)
          (oinstrs (func_at s f) := list_remove_ref s (list_at s l ! i) (instr_refs s f))\<rparr>"
      from True dead "1.prems" unfold
      have r: "dce_sweep_store used f l (Suc i) s1 False = (s', c')" by (simp add: s1_def)
      have l1: "l = oinstrs (func_at s1 f)" using "1.prems"(2) by (simp add: s1_def)
      from "1.IH"(1) [OF True dead r [unfolded s1_def] l1 [unfolded s1_def]]
      have "dce_sweep used (Suc i) (map (instr_at s1) (list_at s1 l)) False =
          (map (instr_at s') (list_at s' l), c')" by (simp add: s1_def)
      moreover have "map (instr_at s1) (list_at s1 l) =
          list_remove (map (instr_at s) (list_at s l) ! i) (map (instr_at s) (list_at s l))"
        using True "1.prems"(2) by (simp add: s1_def instr_refs_def list_remove_ref_map)
      ultimately show ?thesis using True dead pure by simp
    next
      case live: False
      from True live "1.prems" unfold
      have "dce_sweep_store used f l (Suc i) s converge = (s', c')" by simp
      from "1.IH"(2) [OF True live this "1.prems"(2)] True live pure show ?thesis by simp
    qed
  qed
qed

lemma global_dce_loop_store_pure:
  "map (instr_at (global_dce_loop_store used f s)) (instr_refs (global_dce_loop_store used f s) f) =
     global_dce_loop used (map (instr_at s) (instr_refs s f))"
proof (induction used f s rule: global_dce_loop_store.induct)
  case (1 used f s)
  define used' where "used' = collect_used used (map (instr_at s) (instr_refs s f))"
  define r where "r = dce_sweep_store used' f (oinstrs (func_at s f)) 0 s True"
  have e: "dce_sweep_store used' f (oinstrs (func_at s f)) 0 s True = (fst r, snd r)"
    by (simp add: r_def)
  from dce_sweep_store_frame [OF e] have fr: "func_at (fst r) = func_at s" by simp
  from dce_sweep_store_pure [OF e]
  have p: "dce_sweep used' 0 (map (instr_at s) (instr_refs s f)) True =
      (map (instr_at (fst r)) (instr_refs (fst r) f), snd r)"
    by (simp add: instr_refs_def fr)
  show ?case
  proof (cases "snd r")
    case True
    then have "global_dce_loop_store used f s = fst r"
      by (subst global_dce_loop_store.simps) (simp add: Let_def used'_def r_def)
    with True p show ?thesis
      by (subst global_dce_loop.simps) (simp add: Let_def used'_def)
  next
    case False
    then have g: "global_dce_loop_store used f s = global_dce_loop_store used' f (fst r)"
      by (subst global_dce_loop_store.simps) (simp add: Let_def used'_def r_def)
    from "1.IH" [OF used'_def r_def False] False p show ?thesis
      unfolding g
      by (subst global_dce_loop.simps) (simp add: Let_def used'_def)
  qed
qed

lemma global_dce_store_pure: "func_of (global_dce_store f s) f = global_dce (func_of s f)"
  using global_dce_loop_store_pure [of "{}" f s] global_dce_loop_store_frame [of "{}" f s]
  by (simp add: func_of_def global_dce_def global_dce_store_def)

lemma form_blocks_loop_map:
  "map (map v) (form_blocks_loop (opf \<circ> v) cur xs) = form_blocks_loop opf (map v cur) (map v xs)"
  by (induction xs arbitrary: cur) (auto split: option.splits)

lemma list_pop_map: "list_pop (map v xs) j = map_sum id (map v) (list_pop xs j)"
  by (simp add: list_pop_def take_map drop_map)

lemma local_dce_scan_store_pure:
  "map_sum id (map (instr_at s)) (local_dce_scan_store s i block last_def) =
     local_dce_scan i (map (instr_at s) block) last_def"
proof (induction s i block last_def rule: local_dce_scan_store.induct)
  case (1 s i block last_def)
  note unfold = local_dce_scan_store.simps [of s i block last_def]
  note pure = local_dce_scan.simps [of i "map (instr_at s) block" last_def]
  show ?case
  proof (cases "i < length block")
    case False
    with unfold pure show ?thesis by simp
  next
    case True
    define instr where "instr = instr_at s (block ! i)"
    define last_def1 where
      "last_def1 = dict_pop_all (case args instr of Some as \<Rightarrow> as | None \<Rightarrow> []) last_def"
    show ?thesis
    proof (cases "dest instr")
      case None
      have a: "local_dce_scan_store s i block last_def =
          local_dce_scan_store s (Suc i) block last_def1"
        using True None unfold by (simp add: Let_def instr_def last_def1_def)
      have b: "local_dce_scan i (map (instr_at s) block) last_def =
          local_dce_scan (Suc i) (map (instr_at s) block) last_def1"
        using True None pure by (simp add: Let_def instr_def last_def1_def)
      show ?thesis
        unfolding a b by (rule "1.IH"(1) [OF True instr_def last_def1_def None])
    next
      case (Some d)
      show ?thesis
      proof (cases "last_def1 d")
        case no: None
        have a: "local_dce_scan_store s i block last_def =
            local_dce_scan_store s (Suc i) block (last_def1(d \<mapsto> i))"
          using True Some no unfold by (simp add: Let_def instr_def last_def1_def)
        have b: "local_dce_scan i (map (instr_at s) block) last_def =
            local_dce_scan (Suc i) (map (instr_at s) block) (last_def1(d \<mapsto> i))"
          using True Some no pure by (simp add: Let_def instr_def last_def1_def)
        show ?thesis
          unfolding a b by (rule "1.IH"(2) [OF True instr_def last_def1_def Some no])
      next
        case j: (Some j)
        show ?thesis
        proof (cases "list_pop block j")
          case (Inl e)
          with True Some j unfold pure show ?thesis
            by (simp add: Let_def instr_def last_def1_def list_pop_map)
        next
          case (Inr block')
          have a: "local_dce_scan_store s i block last_def =
              local_dce_scan_store s (Suc i) block' (last_def1(d \<mapsto> i))"
            using True Some j Inr unfold by (simp add: Let_def instr_def last_def1_def)
          have b: "local_dce_scan i (map (instr_at s) block) last_def =
              local_dce_scan (Suc i) (map (instr_at s) block') (last_def1(d \<mapsto> i))"
            using True Some j Inr pure by (simp add: Let_def instr_def last_def1_def list_pop_map)
          show ?thesis
            unfolding a b by (rule "1.IH"(3) [OF True instr_def last_def1_def Some j Inr])
        qed
      qed
    qed
  qed
qed

lemma collect_results_map_sum:
  "collect_results (map (map_sum id g) rs) = map_sum id (map g) (collect_results rs)"
  by (induction rs) (auto split: sum.splits)

lemma func_of_assign_instrs:
  "func_of (assign_instrs f xs s) f = (func_of s f)\<lparr>instrs := map (instr_at s) xs\<rparr>"
  by (simp add: func_of_def assign_instrs_def new_list_def set_instrs_def instr_refs_def)

lemma local_dce_store_pure:
  "map_sum id (\<lambda>s'. func_of s' f) (local_dce_store f s) = local_dce (func_of s f)"
proof -
  define blocks where "blocks = form_blocks_loop (op \<circ> instr_at s) [] (instr_refs s f)"
  have b: "form_blocks (instrs (func_of s f)) = map (map (instr_at s)) blocks"
    using form_blocks_loop_map [of "instr_at s" op "[]" "instr_refs s f"]
    by (simp add: form_blocks_def func_of_def blocks_def)
  have "collect_results (map (\<lambda>block. local_dce_scan 0 block Map.empty) (map (map (instr_at s)) blocks)) =
      map_sum id (map (map (instr_at s)))
        (collect_results (map (\<lambda>block. local_dce_scan_store s 0 block Map.empty) blocks))"
    using collect_results_map_sum [of "map (instr_at s)"
        "map (\<lambda>block. local_dce_scan_store s 0 block Map.empty) blocks"]
    by (simp add: local_dce_scan_store_pure comp_def)
  then show ?thesis
    unfolding local_dce_store_def local_dce_def b blocks_def [symmetric]
    by (auto simp: func_of_assign_instrs flatten_def map_concat split: sum.splits)
qed

lemma lvn_body_done:
  "lvn_body (i, lw) (done, st) =
     (case lvn_body (i, lw) ([], st) of
        Inl e \<Rightarrow> Inl e
      | Inr (d, st') \<Rightarrow> Inr (done @ [last d], st'))"
  unfolding lvn_body_def
  by (auto simp: and_then_def Let_def split: sum.splits option.splits prod.splits if_splits)

lemma length_last_writes_loop: "length (fst (last_writes_loop is)) = length is"
  by (induction "is") (auto split: prod.splits option.splits)

lemma for_each_lvn_body_store_pure:
  "distinct (map fst zs) \<Longrightarrow> set (map fst zs) \<inter> set pre = {} \<Longrightarrow>
     for_each lvn_body (map (\<lambda>(a, lw). (instr_at s a, lw)) zs) (map (instr_at s) pre, st) =
     map_sum id (\<lambda>(s', st'). (map (instr_at s') (pre @ map fst zs), st'))
       (for_each lvn_body_store zs (s, st))"
proof (induction zs arbitrary: s pre st)
  case Nil
  then show ?case by simp
next
  case (Cons z zs)
  obtain a lw where z: "z = (a, lw)" by (cases z)
  from Cons.prems z have a: "a \<notin> set pre" "a \<notin> fst ` set zs" by auto
  show ?case
  proof (cases "lvn_body (instr_at s a, lw) ([], st)")
    case (Inl e)
    then show ?thesis
      using lvn_body_done [of "instr_at s a" lw "map (instr_at s) pre" st]
      by (simp add: z lvn_body_store_def and_then_def)
  next
    case (Inr r)
    obtain d st' where r: "r = (d, st')" by (cases r)
    define s1 where "s1 = s\<lparr>instr_at := (instr_at s)(a := last d)\<rparr>"
    have store: "lvn_body_store (a, lw) (s, st) = Inr (s1, st')"
      using Inr r by (simp add: lvn_body_store_def and_then_def s1_def)
    have pure: "lvn_body (instr_at s a, lw) (map (instr_at s) pre, st) =
        Inr (map (instr_at s1) (pre @ [a]), st')"
      using lvn_body_done [of "instr_at s a" lw "map (instr_at s) pre" st] Inr r a(1)
      by (simp add: s1_def)
    have same: "map (\<lambda>(a, lw). (instr_at s a, lw)) zs = map (\<lambda>(a, lw). (instr_at s1 a, lw)) zs"
      using a(2) by (force simp: s1_def)
    have ih: "for_each lvn_body (map (\<lambda>(a, lw). (instr_at s1 a, lw)) zs) (map (instr_at s1) (pre @ [a]), st') =
        map_sum id (\<lambda>(s', st'). (map (instr_at s') ((pre @ [a]) @ map fst zs), st'))
          (for_each lvn_body_store zs (s1, st'))"
      using Cons.prems z by (intro Cons.IH) auto
    have "for_each lvn_body (map (\<lambda>(a, lw). (instr_at s a, lw)) (z # zs)) (map (instr_at s) pre, st) =
        for_each lvn_body (map (\<lambda>(a, lw). (instr_at s a, lw)) zs) (map (instr_at s1) (pre @ [a]), st')"
      using pure by (simp add: z and_then_def)
    also have "\<dots> = for_each lvn_body (map (\<lambda>(a, lw). (instr_at s1 a, lw)) zs)
        (map (instr_at s1) (pre @ [a]), st')"
      by (simp only: same)
    also note ih
    also have "map_sum id (\<lambda>(s', st'). (map (instr_at s') ((pre @ [a]) @ map fst zs), st'))
          (for_each lvn_body_store zs (s1, st')) =
        map_sum id (\<lambda>(s', st'). (map (instr_at s') (pre @ map fst (z # zs)), st'))
          (for_each lvn_body_store (z # zs) (s, st))"
      using store by (simp add: z and_then_def)
    finally show ?thesis .
  qed
qed

lemma lvn_block_store_pure:
  assumes "distinct block"
  shows "lvn_block prio (map (instr_at s) block) =
     map_sum id (\<lambda>s'. map (instr_at s') block) (lvn_block_store prio block s)"
proof -
  define lws where "lws = last_writes (map (instr_at s) block)"
  have len: "length lws = length block"
    by (simp add: lws_def last_writes_def length_last_writes_loop)
  then have f: "map fst (zip block lws) = block" by simp
  have z: "zip (map (instr_at s) block) lws = map (\<lambda>(a, lw). (instr_at s a, lw)) (zip block lws)"
    by (simp add: zip_map1)
  from assms f have d: "distinct (map fst (zip block lws))" by simp
  show ?thesis
    using for_each_lvn_body_store_pure [OF d, of "[]" s] f
    unfolding lvn_block_def lvn_block_store_def Let_def lws_def [symmetric] z
    by (auto simp: and_then_def split: sum.splits)
qed


lemma for_each_lvn_block_store_writes:
  assumes "for_each (lvn_block_store prio) bs s = Inr s'"
  shows "writes_instrs_in (set (concat bs)) s s'"
proof (rule for_each_related [where R = "writes_instrs_in (set (concat bs))", OF _ _ _ assms])
  fix block t t'
  assume "block \<in> set bs" and "lvn_block_store prio block t = Inr t'"
  then have "set block \<subseteq> set (concat bs)" and "writes_instrs_in (set block) t t'"
    by (auto intro: lvn_block_store_writes)
  then show "writes_instrs_in (set (concat bs)) t t'"
    by (rule writes_instrs_in_mono [rotated])
qed (auto intro: writes_instrs_in_refl writes_instrs_in_trans)

lemma writes_instrs_in_map:
  "writes_instrs_in A s s' \<Longrightarrow> set xs \<inter> A = {} \<Longrightarrow> map (instr_at s') xs = map (instr_at s) xs"
  by (auto simp: writes_instrs_in_def)

lemma for_each_lvn_block_store_pure:
  "distinct (concat bs) \<Longrightarrow>
     collect_results (map (lvn_block prio) (map (map (instr_at s)) bs)) =
     map_sum id (\<lambda>s'. map (map (instr_at s')) bs) (for_each (lvn_block_store prio) bs s)"
proof (induction bs arbitrary: s)
  case Nil
  then show ?case by simp
next
  case (Cons b bs)
  from Cons.prems have d: "distinct b" "distinct (concat bs)" "set b \<inter> set (concat bs) = {}"
    by auto
  note first = lvn_block_store_pure [OF d(1), of prio s]
  show ?case
  proof (cases "lvn_block_store prio b s")
    case (Inl e)
    with first show ?thesis by (simp add: and_then_def)
  next
    case (Inr s1)
    from lvn_block_store_writes [OF Inr] have w1: "writes_instrs_in (set b) s s1" .
    have same: "map (map (instr_at s1)) bs = map (map (instr_at s)) bs"
    proof (rule map_cong [OF refl])
      fix x
      assume "x \<in> set bs"
      then have "set x \<inter> set b = {}" using d(3) by auto
      then show "map (instr_at s1) x = map (instr_at s) x"
        by (rule writes_instrs_in_map [OF w1])
    qed
    note ih = Cons.IH [OF d(2), of s1]
    show ?thesis
    proof (cases "for_each (lvn_block_store prio) bs s1")
      case e: (Inl e)
      with ih first Inr same show ?thesis by (simp add: and_then_def)
    next
      case r: (Inr s')
      from for_each_lvn_block_store_writes [OF r]
      have "map (instr_at s') b = map (instr_at s1) b"
        using d(3) by (intro writes_instrs_in_map) auto
      with ih first Inr same r show ?thesis by (simp add: and_then_def)
    qed
  qed
qed

lemma lvn_func_store_pure:
  assumes "distinct (instr_refs s f)"
  shows "map_sum id (\<lambda>s'. func_of s' f) (lvn_func_store prio f s) = lvn_func prio (func_of s f)"
proof -
  define blocks where "blocks = form_blocks_loop (op \<circ> instr_at s) [] (instr_refs s f)"
  have c: "concat blocks = instr_refs s f"
    by (simp add: blocks_def concat_form_blocks_loop)
  have b: "form_blocks (instrs (func_of s f)) = map (map (instr_at s)) blocks"
    using form_blocks_loop_map [of "instr_at s" op "[]" "instr_refs s f"]
    by (simp add: form_blocks_def func_of_def blocks_def)
  from assms c have d: "distinct (concat blocks)" by simp
  note p = for_each_lvn_block_store_pure [OF d, of prio s]
  show ?thesis
  proof (cases "for_each (lvn_block_store prio) blocks s")
    case (Inl e)
    with p show ?thesis
      unfolding lvn_func_store_def lvn_func_def b Let_def blocks_def [symmetric]
      by (simp add: and_then_def)
  next
    case (Inr s')
    from for_each_lvn_block_store_writes [OF Inr] have "func_at s' = func_at s"
      by (simp add: writes_instrs_in_def)
    then have "(func_of s' f)\<lparr>instrs := map (instr_at s') (flatten blocks)\<rparr> =
        (func_of s f)\<lparr>instrs := flatten (map (map (instr_at s')) blocks)\<rparr>"
      by (simp add: func_of_def flatten_def map_concat)
    with p Inr show ?thesis
      unfolding lvn_func_store_def lvn_func_def b Let_def blocks_def [symmetric]
      by (simp add: and_then_def func_of_assign_instrs)
  qed
qed

subsection \<open>What a pass changes\<close>

text \<open>
  C9. Each pass (global and local dead code elimination, dead-store elimination,
  and local value numbering, whose entry point runs \<open>lvn_func_store\<close> on every
  function of the program), run on a function \<open>f\<close> of a store, changes only the
  instruction list of \<open>f\<close>: the key \<open>instrs\<close> of \<open>f\<close>, the list object it refers to
  and the instructions in that list. The name, the parameters and the type of \<open>f\<close>
  are unchanged, and so is every object outside \<open>f\<close>: the other functions, the
  other lists, the instructions not in the list of \<open>f\<close>. A function that shares no
  object with \<open>f\<close> has the same value after the pass as before.
\<close>

theorem passes_change_only_instrs:
  assumes "s' = global_dce_store f s \<or> local_dce_store f s = Inr s' \<or>
           optimize_function_store f s = Some (Inr s') \<or> lvn_func_store prio f s = Inr s'"
  shows "only_instrs_changed f s s' \<and> (\<forall>g. shares_nothing s f g \<longrightarrow> func_of s' g = func_of s g)"
proof -
  from assms have "only_instrs_changed f s s'"
    by (auto intro: global_dce_store_changes local_dce_store_changes
        optimize_function_store_changes lvn_func_store_changes)
  then show ?thesis by (auto intro: only_instrs_changed_other)
qed

text \<open>
  A store with two functions: \<open>main\<close>, whose list holds \<open>a = const 1; b = add a a;
  c = add a a; print c\<close>, and \<open>other\<close>, whose list holds \<open>d = const 7\<close>. Global dead
  code elimination removes \<open>b = add a a\<close> from the list object of \<open>main\<close>, local
  value numbering rewrites the dictionary of \<open>c = add a a\<close> to \<open>c = id b\<close>, and each
  pass on \<open>main\<close> leaves \<open>other\<close> as it was.
\<close>

definition ex_store :: store where
  "ex_store = \<lparr>
     func_at = (\<lambda>_. \<lparr>oname = ''main'', oargs = None, otype = None, oinstrs = 0\<rparr>)
       (1 := \<lparr>oname = ''other'', oargs = None, otype = None, oinstrs = 1\<rparr>),
     list_at = (\<lambda>_. [])(0 := [0, 1, 2, 3], 1 := [4]),
     instr_at = (\<lambda>_. no_instr)
       (0 := const_i ''a'' 1, 1 := op_i ''b'' ''add'' [''a'', ''a''],
        2 := op_i ''c'' ''add'' [''a'', ''a''], 3 := eff_i ''print'' [''c''],
        4 := const_i ''d'' 7),
     next_list = 2\<rparr>"

lemma ex_share: "shares_nothing ex_store 0 1"
  by (simp add: shares_nothing_def ex_store_def instr_refs_def)

lemma ex_global: "instr_refs (global_dce_store 0 ex_store) 0 = [0, 2, 3]"
  by (simp add: global_dce_store_def global_dce_loop_store.simps dce_sweep_store.simps
      collect_used_def ex_store_def instr_refs_def instr_defs instr_eq_def Let_def)

lemma ex_local: "local_dce_store 0 ex_store = Inr (assign_instrs 0 [0, 1, 2, 3] ex_store)"
  by (simp add: local_dce_store_def ex_store_def instr_refs_def flatten_def TERMINATORS_def
      local_dce_scan_store.simps list_pop_def dict_pop_all_def instr_defs)

lemma ex_dse_run:
  "optimize_function_store 0 ex_store = Some (Inr (assign_instrs 0 [0, 1, 2, 3] ex_store))"
  by (simp add: optimize_function_store_def ex_store_def instr_refs_def func_of_def
      dse_defs instr_defs py_defs)

lemma ex_lvn:
  "map_sum id (\<lambda>s. instr_at s 2) (lvn_func_store [] 0 ex_store) = Inr (op_i ''c'' ''id'' [''b''])"
  by (simp add: lvn_func_store_def lvn_block_store_def lvn_body_store_def ex_store_def
      instr_refs_def flatten_def TERMINATORS_def assign_instrs_def new_list_def set_instrs_def
      get_variables_read_before_write_def set_iter_def last_writes_def
      lvn_body_def lvn_fresh_number_def lvn_seed_def numbering_add_def canonicalize_def
      instr_defs py_defs Let_def)

theorem passes_change_only_instrs_witness:
  "instr_refs (global_dce_store 0 ex_store) 0 = [0, 2, 3] \<and>
   func_of (global_dce_store 0 ex_store) 1 = func_of ex_store 1 \<and>
   map_sum id (\<lambda>s. func_of s 1) (local_dce_store 0 ex_store) = Inr (func_of ex_store 1) \<and>
   map_option (map_sum id (\<lambda>s. func_of s 1)) (optimize_function_store 0 ex_store) =
     Some (Inr (func_of ex_store 1)) \<and>
   map_sum id (\<lambda>s. instr_at s 2) (lvn_func_store [] 0 ex_store) = Inr (op_i ''c'' ''id'' [''b'']) \<and>
   map_sum id (\<lambda>s. func_of s 1) (lvn_func_store [] 0 ex_store) = Inr (func_of ex_store 1) \<and>
   func_of ex_store 1 =
     \<lparr>fname = ''other'', fargs = None, ftype = None, instrs = [const_i ''d'' 7]\<rparr>"
proof -
  obtain s3 where l: "lvn_func_store [] 0 ex_store = Inr s3"
    using ex_lvn by (cases "lvn_func_store [] 0 ex_store") auto
  have "func_of (global_dce_store 0 ex_store) 1 = func_of ex_store 1"
    using passes_change_only_instrs [of "global_dce_store 0 ex_store" 0 ex_store "[]"] ex_share
    by simp
  moreover have "func_of (assign_instrs 0 [0, 1, 2, 3] ex_store) 1 = func_of ex_store 1"
    using passes_change_only_instrs [of "assign_instrs 0 [0, 1, 2, 3] ex_store" 0 ex_store "[]"]
      ex_local ex_dse_run ex_share
    by simp
  moreover have "func_of s3 1 = func_of ex_store 1"
    using passes_change_only_instrs [of s3 0 ex_store "[]"] l ex_share by simp
  moreover have "func_of ex_store 1 =
     \<lparr>fname = ''other'', fargs = None, ftype = None, instrs = [const_i ''d'' 7]\<rparr>"
    by (simp add: func_of_def ex_store_def instr_refs_def)
  ultimately show ?thesis
    using ex_global ex_local ex_dse_run ex_lvn l by simp
qed

text \<open>
  The functions must share nothing for this. When \<open>other\<close> refers to the list object
  of \<open>main\<close>, global dead code elimination on \<open>main\<close> removes \<open>b = add a a\<close> from
  the instructions of \<open>other\<close> as well, since it removes from the list object; local
  dead code elimination, which gives \<open>main\<close> a new list, does not.
\<close>

definition ex_shared :: store where
  "ex_shared = set_instrs 1 0 ex_store"

lemma shared_list_changes:
  "instrs (func_of ex_shared 1) =
     [const_i ''a'' 1, op_i ''b'' ''add'' [''a'', ''a''], op_i ''c'' ''add'' [''a'', ''a''],
      eff_i ''print'' [''c'']] \<and>
   instrs (func_of (global_dce_store 0 ex_shared) 1) =
     [const_i ''a'' 1, op_i ''c'' ''add'' [''a'', ''a''], eff_i ''print'' [''c'']] \<and>
   map_sum id (\<lambda>s. func_of s 1) (local_dce_store 0 ex_shared) = Inr (func_of ex_shared 1)"
  by (simp add: ex_shared_def set_instrs_def func_of_def
      global_dce_store_def global_dce_loop_store.simps dce_sweep_store.simps collect_used_def
      local_dce_store_def flatten_def TERMINATORS_def assign_instrs_def new_list_def
      local_dce_scan_store.simps list_pop_def dict_pop_all_def
      ex_store_def instr_refs_def instr_defs instr_eq_def Let_def)

section \<open>Loop-invariant code motion (loop/licm.py)\<close>

text \<open>
  The modules \<open>cfg\<close> and \<open>dom\<close> that \<open>licm.py\<close> imports are not part of the sources.
  What this file takes from them is data: a graph, which is a dictionary from labels
  to nodes with the sets \<open>successors\<close> and \<open>predecessors\<close>, and a dictionary of
  dominator sets. Both are parameters here. A set that the code iterates over is the
  list of its elements in the order of the iteration.
\<close>

record graph_node =
  successors :: "string list"
  predecessors :: "string list"

type_synonym graph = "(string \<times> graph_node) list"

text \<open>A loop is the dictionary \<open>{"entry": h, "loop": members}\<close>.\<close>

record natural_loop =
  entry :: string
  loop :: "string list"

text \<open>
  \<open>loop_invariants\<close> maps a variable to \<open>{"instr": instr, "block": lblock}\<close>, here a
  pair.
\<close>

type_synonym invariants = "(string \<times> instr \<times> string) list"

text \<open>
  \<open>any\<close> and \<open>all\<close> over a generator stop at the first element that decides them;
  an exception raised before that point is raised by the whole.
\<close>

fun any_of :: "('a \<Rightarrow> py_error + bool) \<Rightarrow> 'a list \<Rightarrow> py_error + bool" where
  "any_of p [] = Inr False"
| "any_of p (x # xs) = and_then (p x) (\<lambda>b. if b then Inr True else any_of p xs)"

fun all_of :: "('a \<Rightarrow> py_error + bool) \<Rightarrow> 'a list \<Rightarrow> py_error + bool" where
  "all_of p [] = Inr True"
| "all_of p (x # xs) = and_then (p x) (\<lambda>b. if b then all_of p xs else Inr False)"

text \<open>\<open>get_var_defs\<close> (loop/dataflow.py): the last definition of each variable.\<close>

definition get_var_defs :: "instr list \<Rightarrow> (string \<times> instr) list" where
  "get_var_defs is =
     fold (\<lambda>instr d. case dest instr of Some v \<Rightarrow> AList.update v instr d | None \<Rightarrow> d) is []"

definition get_loop_exits :: "string list \<Rightarrow> graph \<Rightarrow> natural_loop \<Rightarrow> py_error + string list" where
  "get_loop_exits exit_order graph lp =
     and_then (collect_results (map (\<lambda>lblock.
         and_then (lookup graph lblock) (\<lambda>node.
           Inr (lblock, list_ex (\<lambda>succ. succ \<notin> set (loop lp)) (successors node)))) (loop lp)))
       (\<lambda>flagged. Inr (set_iter exit_order (map fst (filter snd flagged))))"

definition is_var_defined_elsewhere ::
  "(string \<times> instr list) list \<Rightarrow> string \<Rightarrow> instr \<Rightarrow> natural_loop \<Rightarrow> py_error + bool" where
  "is_var_defined_elsewhere label2block var vardef lp =
     any_of (\<lambda>lblock.
         and_then (lookup label2block lblock) (\<lambda>block.
           Inr (list_ex (\<lambda>(defvar, defn). var = defvar \<and> \<not> instr_eq vardef defn)
                  (get_var_defs block))))
       (loop lp)"

definition get_loop_blocks_that_use_var ::
  "string list \<Rightarrow> (string \<times> instr list) list \<Rightarrow> string \<Rightarrow> natural_loop \<Rightarrow> py_error + string list" where
  "get_loop_blocks_that_use_var use_order label2block var lp =
     and_then (collect_results (map (\<lambda>lblock.
         and_then (lookup label2block lblock) (\<lambda>block.
           Inr (lblock, list_ex (\<lambda>instr. case args instr of Some as \<Rightarrow> var \<in> set as
                                          | None \<Rightarrow> False) block))) (loop lp)))
       (\<lambda>flagged. Inr (set_iter use_order (map fst (filter snd flagged))))"

text \<open>
  The depth-first search of \<open>is_var_used_in_future\<close>. The stack is a Python list:
  \<open>pop\<close> takes its last element. Each round either pops a visited block or visits a
  new block of \<open>label2block\<close>, or raises, so the search ends.
\<close>

function is_var_used_loop ::
  "graph \<Rightarrow> (string \<times> instr list) list \<Rightarrow> string \<Rightarrow> string set \<Rightarrow> string list \<Rightarrow> py_error + bool" where
  "is_var_used_loop graph label2block var visited stack =
     (if stack = [] then Inr False
      else if last stack \<in> visited then
        is_var_used_loop graph label2block var visited (butlast stack)
      else
        (case lookup label2block (last stack) of
           Inl e \<Rightarrow> Inl e
         | Inr block \<Rightarrow>
             if list_ex (\<lambda>instr. var \<in> set (args_or_empty instr)) block then Inr True
             else
               (case lookup graph (last stack) of
                  Inl e \<Rightarrow> Inl e
                | Inr node \<Rightarrow>
                    is_var_used_loop graph label2block var (insert (last stack) visited)
                      (butlast stack @
                         filter (\<lambda>succ. succ \<notin> insert (last stack) visited) (successors node)))))"
  by pat_completeness auto
termination
proof (relation "measures [\<lambda>(graph, label2block, var, visited, stack).
                             card (set (map fst label2block) - visited),
                           \<lambda>(graph, label2block, var, visited, stack). length stack]")
  fix graph :: graph and label2block :: "(string \<times> instr list) list" and var :: string
    and visited :: "string set" and stack :: "string list" and block node
  assume fresh: "last stack \<notin> visited" and found: "lookup label2block (last stack) = Inr block"
  from found have "last stack \<in> set (map fst label2block)"
    by (auto simp: lookup_def split: option.splits dest: map_of_SomeD intro: rev_image_eqI)
  with fresh have "set (map fst label2block) - insert (last stack) visited
      \<subset> set (map fst label2block) - visited"
    by blast
  then have "card (set (map fst label2block) - insert (last stack) visited)
      < card (set (map fst label2block) - visited)"
    by (intro psubset_card_mono) auto
  then show "((graph, label2block, var, insert (last stack) visited,
       butlast stack @ filter (\<lambda>succ. succ \<notin> insert (last stack) visited) (successors node)),
      (graph, label2block, var, visited, stack))
    \<in> measures [\<lambda>(graph, label2block, var, visited, stack).
                   card (set (map fst label2block) - visited),
                 \<lambda>(graph, label2block, var, visited, stack). length stack]"
    by simp
qed auto

declare is_var_used_loop.simps [simp del]

definition is_var_used_in_future ::
  "graph \<Rightarrow> (string \<times> instr list) list \<Rightarrow> string \<Rightarrow> string \<Rightarrow> py_error + bool" where
  "is_var_used_in_future graph label2block var start_block =
     is_var_used_loop graph label2block var {} [start_block]"

text \<open>
  \<open>sat_relaxed_cond_3\<close> returns \<open>False\<close> from inside its loops at the first use
  found after an exit, and \<open>True\<close> when the loops end.
\<close>

definition sat_relaxed_cond_3 ::
  "graph \<Rightarrow> (string \<times> instr list) list \<Rightarrow> string list \<Rightarrow> string \<Rightarrow> invariants \<Rightarrow>
     natural_loop \<Rightarrow> py_error + bool" where
  "sat_relaxed_cond_3 graph label2block exits li_var loop_invariants lp =
     and_then (lookup loop_invariants li_var) (\<lambda>inv.
       if op (fst inv) \<in> {Some ''div'', Some ''print''} then Inr False
       else
         and_then (any_of (\<lambda>lexit.
             and_then (lookup graph lexit) (\<lambda>node.
               any_of (\<lambda>succ.
                   if succ \<in> set (loop lp) then Inr False
                   else is_var_used_in_future graph label2block li_var succ)
                 (successors node)))
           exits)
         (\<lambda>used. Inr (\<not> used)))"

definition can_move ::
  "string list \<Rightarrow> graph \<Rightarrow> (string \<times> instr list) list \<Rightarrow> (string \<times> string set) list \<Rightarrow>
     invariants \<Rightarrow> string \<Rightarrow> natural_loop \<Rightarrow> string list \<Rightarrow> py_error + bool" where
  "can_move use_order graph label2block dominators loop_invariants li_var lp exits =
     and_then (lookup loop_invariants li_var) (\<lambda>inv.
       let li_block = snd inv in
       and_then (is_var_defined_elsewhere label2block li_var (fst inv) lp) (\<lambda>elsewhere.
         if elsewhere then Inr False
         else
           and_then (get_loop_blocks_that_use_var use_order label2block li_var lp) (\<lambda>use_blocks.
           and_then (all_of (\<lambda>use_block.
               and_then (lookup dominators use_block) (\<lambda>doms. Inr (li_block \<in> doms)))
             use_blocks) (\<lambda>dominates_uses.
             if \<not> dominates_uses then Inr False
             else
               all_of (\<lambda>lexit.
                   and_then (lookup dominators lexit) (\<lambda>doms.
                     if li_block \<in> doms then Inr True
                     else sat_relaxed_cond_3 graph label2block exits li_var loop_invariants lp))
                 exits))))"

text \<open>
  The list \<open>movable_instrs\<close> of \<open>make_preloop_header\<close>: the instructions that go into
  the pre-header. \<open>use_order\<close> gives, for each candidate, the order in which the set
  of the blocks that use it is iterated, and \<open>exit_order\<close> that of the set of exits.
\<close>

definition movable_instrs ::
  "(string \<Rightarrow> string list) \<Rightarrow> string list \<Rightarrow> graph \<Rightarrow> (string \<times> instr list) list \<Rightarrow>
     (string \<times> string set) list \<Rightarrow> invariants \<Rightarrow> natural_loop \<Rightarrow> py_error + instr list" where
  "movable_instrs use_order exit_order graph label2block dominators loop_invariants lp =
     and_then (get_loop_exits exit_order graph lp) (\<lambda>exits.
     and_then (collect_results (map (\<lambda>li_var.
         and_then (can_move (use_order li_var) graph label2block dominators loop_invariants
                     li_var lp exits) (\<lambda>ok.
         and_then (lookup loop_invariants li_var) (\<lambda>inv. Inr (ok, fst inv))))
       (map fst loop_invariants)))
       (\<lambda>flagged. Inr (map snd (filter fst flagged))))"

subsection \<open>Properties of the legality check\<close>

lemma all_of_True: "all_of p xs = Inr True \<Longrightarrow> x \<in> set xs \<Longrightarrow> p x = Inr True"
proof (induction xs)
  case Nil
  then show ?case by simp
next
  case (Cons y ys)
  from Cons.prems(1) have "p y = Inr True" and "all_of p ys = Inr True"
    by (auto simp: and_then_Inr_iff split: if_splits)
  with Cons show ?case by auto
qed

lemma relaxed_rule_refuses:
  assumes "lookup loop_invariants li_var = Inr (instr, li_block)"
    and "op instr \<in> {Some ''div'', Some ''print''}"
  shows "sat_relaxed_cond_3 graph label2block exits li_var loop_invariants lp = Inr False"
  using assms by (simp add: sat_relaxed_cond_3_def and_then_def)

lemma can_move_dominates_exits:
  assumes inv: "lookup loop_invariants li_var = Inr (instr, li_block)"
    and unsafe: "op instr \<in> {Some ''div'', Some ''print''}"
    and ok: "can_move use_order graph label2block dominators loop_invariants li_var lp exits = Inr True"
    and lexit: "lexit \<in> set exits"
  shows "\<exists>doms. lookup dominators lexit = Inr doms \<and> li_block \<in> doms"
proof -
  let ?check = "\<lambda>lexit. and_then (lookup dominators lexit) (\<lambda>doms.
      if li_block \<in> doms then Inr True
      else sat_relaxed_cond_3 graph label2block exits li_var loop_invariants lp)"
  from ok inv have "all_of ?check exits = Inr True"
    by (auto simp: can_move_def and_then_Inr_iff Let_def split: if_splits)
  from all_of_True [OF this lexit] obtain doms where
    d: "lookup dominators lexit = Inr doms" and
    c: "(if li_block \<in> doms then Inr True
         else sat_relaxed_cond_3 graph label2block exits li_var loop_invariants lp) = Inr True"
    by (auto simp: and_then_Inr_iff)
  from c relaxed_rule_refuses [OF inv unsafe, of graph label2block exits lp]
  have "li_block \<in> doms" by (auto split: if_splits)
  with d show ?thesis by blast
qed

lemma movable_instrs_origin:
  assumes "movable_instrs use_order exit_order graph label2block dominators loop_invariants lp = Inr ms"
    and "instr \<in> set ms"
  shows "\<exists>exits li_var li_block.
           get_loop_exits exit_order graph lp = Inr exits \<and>
           lookup loop_invariants li_var = Inr (instr, li_block) \<and>
           can_move (use_order li_var) graph label2block dominators loop_invariants li_var lp exits
             = Inr True"
proof -
  let ?f = "\<lambda>exits li_var.
      and_then (can_move (use_order li_var) graph label2block dominators loop_invariants
                  li_var lp exits) (\<lambda>ok.
      and_then (lookup loop_invariants li_var) (\<lambda>inv. Inr (ok, fst inv)))"
  from assms(1) obtain exits flagged where
    ex: "get_loop_exits exit_order graph lp = Inr exits" and
    fl: "collect_results (map (?f exits) (map fst loop_invariants)) = Inr flagged" and
    ms: "ms = map snd (filter fst flagged)"
    by (auto simp: movable_instrs_def and_then_Inr_iff)
  from assms(2) ms have "(True, instr) \<in> set flagged" by auto
  with collect_results_map [OF fl] obtain li_var where "?f exits li_var = Inr (True, instr)"
    by (auto simp: list_all2_conv_all_nth in_set_conv_nth)
  then obtain inv where
    "can_move (use_order li_var) graph label2block dominators loop_invariants li_var lp exits = Inr True"
    "lookup loop_invariants li_var = Inr inv" "fst inv = instr"
    by (auto simp: and_then_Inr_iff)
  with ex show ?thesis by (cases inv) auto
qed

text \<open>
  C7. For a loop-invariant instruction whose opcode is \<open>div\<close> or \<open>print\<close>, the relaxed
  rule \<open>sat_relaxed_cond_3\<close> answers \<open>False\<close>; \<open>can_move\<close> answers \<open>True\<close> only if the
  block recorded for the instruction is among the dominators of every loop exit; and
  such an instruction in \<open>movable_instrs\<close>, the list that goes into the pre-header, is
  a loop invariant whose recorded block dominates every exit of the loop.
\<close>

theorem unsafe_hoisted_only_when_dominating_exits:
  "(lookup loop_invariants li_var = Inr (instr, li_block) \<and>
      op instr \<in> {Some ''div'', Some ''print''} \<longrightarrow>
      sat_relaxed_cond_3 graph label2block exits li_var loop_invariants lp = Inr False \<and>
      (can_move order graph label2block dominators loop_invariants li_var lp exits = Inr True \<longrightarrow>
         (\<forall>lexit \<in> set exits. \<exists>doms. lookup dominators lexit = Inr doms \<and> li_block \<in> doms))) \<and>
   (movable_instrs use_order exit_order graph label2block dominators loop_invariants lp = Inr ms \<and>
      moved \<in> set ms \<and> op moved \<in> {Some ''div'', Some ''print''} \<longrightarrow>
      (\<exists>loop_exits var blk.
         get_loop_exits exit_order graph lp = Inr loop_exits \<and>
         lookup loop_invariants var = Inr (moved, blk) \<and>
         (\<forall>lexit \<in> set loop_exits. \<exists>doms. lookup dominators lexit = Inr doms \<and> blk \<in> doms)))"
proof (intro conjI impI)
  assume a: "lookup loop_invariants li_var = Inr (instr, li_block) \<and>
      op instr \<in> {Some ''div'', Some ''print''}"
  then show "sat_relaxed_cond_3 graph label2block exits li_var loop_invariants lp = Inr False"
    by (intro relaxed_rule_refuses) auto
  assume "can_move order graph label2block dominators loop_invariants li_var lp exits = Inr True"
  with a show "\<forall>lexit \<in> set exits. \<exists>doms. lookup dominators lexit = Inr doms \<and> li_block \<in> doms"
    by (intro ballI can_move_dominates_exits [where instr = instr]) auto
next
  assume b: "movable_instrs use_order exit_order graph label2block dominators loop_invariants lp = Inr ms \<and>
      moved \<in> set ms \<and> op moved \<in> {Some ''div'', Some ''print''}"
  then obtain loop_exits var blk where
    e: "get_loop_exits exit_order graph lp = Inr loop_exits" and
    i: "lookup loop_invariants var = Inr (moved, blk)" and
    c: "can_move (use_order var) graph label2block dominators loop_invariants var lp loop_exits = Inr True"
    using movable_instrs_origin by blast
  from b have u: "op moved \<in> {Some ''div'', Some ''print''}" by simp
  have "\<forall>lexit \<in> set loop_exits. \<exists>doms. lookup dominators lexit = Inr doms \<and> blk \<in> doms"
    using can_move_dominates_exits [OF i u c] by blast
  with e i show "\<exists>loop_exits var blk.
         get_loop_exits exit_order graph lp = Inr loop_exits \<and>
         lookup loop_invariants var = Inr (moved, blk) \<and>
         (\<forall>lexit \<in> set loop_exits. \<exists>doms. lookup dominators lexit = Inr doms \<and> blk \<in> doms)"
    by blast
qed

definition ex_graph :: graph where
  "ex_graph = [(''h'', \<lparr>successors = [''b'', ''x''], predecessors = [''e'', ''b'']\<rparr>),
               (''b'', \<lparr>successors = [''h''], predecessors = [''h'']\<rparr>),
               (''x'', \<lparr>successors = [], predecessors = [''h'']\<rparr>)]"

definition ex_label2block :: "(string \<times> instr list) list" where
  "ex_label2block =
     [(''h'', [label_i ''h'', op_i ''t'' ''div'' [''a'', ''c''], eff_i ''br'' [''cond'']]),
      (''b'', [label_i ''b'', eff_i ''jmp'' []]),
      (''x'', [label_i ''x'', eff_i ''ret'' []])]"

definition ex_dominators :: "(string \<times> string set) list" where
  "ex_dominators = [(''h'', {''h''}), (''b'', {''h'', ''b''}), (''x'', {''h'', ''x''})]"

definition ex_invariants :: invariants where
  "ex_invariants = [(''t'', (op_i ''t'' ''div'' [''a'', ''c''], ''h''))]"

lemmas licm_ex_defs = ex_graph_def ex_label2block_def ex_dominators_def ex_invariants_def

theorem unsafe_hoisted_only_when_dominating_exits_witness:
  "lookup ex_invariants ''t'' = Inr (op_i ''t'' ''div'' [''a'', ''c''], ''h'') \<and>
   op (op_i ''t'' ''div'' [''a'', ''c'']) = Some ''div'' \<and>
   sat_relaxed_cond_3 ex_graph ex_label2block [''h''] ''t'' ex_invariants
     \<lparr>entry = ''h'', loop = [''h'', ''b'']\<rparr> = Inr False \<and>
   can_move [] ex_graph ex_label2block ex_dominators ex_invariants ''t''
     \<lparr>entry = ''h'', loop = [''h'', ''b'']\<rparr> [''h''] = Inr True \<and>
   movable_instrs (\<lambda>v. []) [] ex_graph ex_label2block ex_dominators ex_invariants
     \<lparr>entry = ''h'', loop = [''h'', ''b'']\<rparr> = Inr [op_i ''t'' ''div'' [''a'', ''c'']] \<and>
   get_loop_exits [] ex_graph \<lparr>entry = ''h'', loop = [''h'', ''b'']\<rparr> = Inr [''h''] \<and>
   lookup ex_dominators ''h'' = Inr {''h''}"
proof -
  have i: "lookup ex_invariants ''t'' = Inr (op_i ''t'' ''div'' [''a'', ''c''], ''h'')"
    by (simp add: ex_invariants_def lookup_def)
  have o: "op (op_i ''t'' ''div'' [''a'', ''c'']) = Some ''div''"
    by (simp add: instr_defs)
  have e: "get_loop_exits [] ex_graph \<lparr>entry = ''h'', loop = [''h'', ''b'']\<rparr> = Inr [''h'']"
    by (simp add: get_loop_exits_def set_iter_def licm_ex_defs py_defs)
  have c: "can_move [] ex_graph ex_label2block ex_dominators ex_invariants ''t''
     \<lparr>entry = ''h'', loop = [''h'', ''b'']\<rparr> [''h''] = Inr True"
    by (simp add: can_move_def is_var_defined_elsewhere_def get_loop_blocks_that_use_var_def
        get_var_defs_def set_iter_def instr_eq_def licm_ex_defs instr_defs py_defs)
  have m: "movable_instrs (\<lambda>v. []) [] ex_graph ex_label2block ex_dominators ex_invariants
     \<lparr>entry = ''h'', loop = [''h'', ''b'']\<rparr> = Inr [op_i ''t'' ''div'' [''a'', ''c'']]"
  proof -
    have k: "map fst ex_invariants = [''t'']" by (simp add: ex_invariants_def)
    show ?thesis
      unfolding movable_instrs_def e k by (simp add: and_then_def c i)
  qed
  have d: "lookup ex_dominators ''h'' = Inr {''h''}"
    by (simp add: ex_dominators_def lookup_def)
  from unsafe_hoisted_only_when_dominating_exits [of ex_invariants "''t''"
      "op_i ''t'' ''div'' [''a'', ''c'']" "''h''" ex_graph ex_label2block "[''h'']"
      "\<lparr>entry = ''h'', loop = [''h'', ''b'']\<rparr>" "[]" ex_dominators "\<lambda>v. []" "[]"
      "[op_i ''t'' ''div'' [''a'', ''c'']]" "op_i ''t'' ''div'' [''a'', ''c'']"]
    i o e c m d
  show ?thesis by simp
qed

section \<open>Dataflow analyses\<close>

text \<open>
  The values of an analysis are compared with \<open>==\<close> and \<open>!=\<close>. For a set of names that
  is equality of sets. For a dictionary it is equality of the maps, whatever the
  order of the keys, so the dictionaries that are values of an analysis, and the
  dictionaries \<open>In\<close> and \<open>Out\<close>, are maps. A constant is compared with \<open>==\<close> too,
  under which \<open>True\<close> is \<open>1\<close>: a known constant is kept as the number of the literal.
  The other value of constant propagation is the mark for "not a constant", \<open>'?'\<close>
  in \<open>dataflow/dataflow.py\<close> and \<open>None\<close> in \<open>loop/dataflow.py\<close>.
\<close>

datatype const_value = Known int | NotConst

subsection \<open>The analyses of dataflow/dataflow.py\<close>

definition union :: "string set list \<Rightarrow> string set" where
  "union sets = fold (\<lambda>s acc. acc \<union> s) sets {}"

definition live_func :: "instr list \<Rightarrow> string set \<Rightarrow> string set" where
  "live_func block Out =
     fold (\<lambda>instr live. (live - (case dest instr of Some d \<Rightarrow> {d} | None \<Rightarrow> {}))
                            \<union> set (args_or_empty instr))
       (rev block) Out"

definition cprop_merge :: "(string \<rightharpoonup> const_value) list \<Rightarrow> (string \<rightharpoonup> const_value)" where
  "cprop_merge dicts =
     fold (\<lambda>d out var.
             case d var of
               None \<Rightarrow> out var
             | Some v \<Rightarrow>
                 (case out var of
                    Some w \<Rightarrow> Some (if w = v then v else NotConst)
                  | None \<Rightarrow> Some v))
       dicts Map.empty"

definition cprop_func_body :: "instr \<Rightarrow> (string \<rightharpoonup> const_value) \<Rightarrow> py_error + (string \<rightharpoonup> const_value)" where
  "cprop_func_body instr out =
     (if truthy (dest instr) then
        (if op instr = Some ''const'' then
           and_then (key (value instr)) (\<lambda>v. Inr (out(the (dest instr) \<mapsto> Known (lit_num v))))
         else Inr (out(the (dest instr) \<mapsto> NotConst)))
      else Inr out)"

definition cprop_func :: "instr list \<Rightarrow> (string \<rightharpoonup> const_value) \<Rightarrow> py_error + (string \<rightharpoonup> const_value)" where
  "cprop_func block In = for_each cprop_func_body block In"

subsection \<open>The analyses of loop/dataflow.py\<close>

definition union_sets :: "string set list \<Rightarrow> string set" where
  "union_sets l = fold (\<lambda>s acc. acc \<union> s) l {}"

definition merge_dicts :: "(string \<rightharpoonup> string set) list \<Rightarrow> (string \<rightharpoonup> string set)" where
  "merge_dicts l k =
     (if list_ex (\<lambda>m. m k \<noteq> None) l
      then Some (fold (\<lambda>m acc. acc \<union> (case m k of Some s \<Rightarrow> s | None \<Rightarrow> {})) l {})
      else None)"

definition merge_consts :: "(string \<rightharpoonup> const_value) list \<Rightarrow> (string \<rightharpoonup> const_value)" where
  "merge_consts l =
     fold (\<lambda>m result k.
             case m k of
               None \<Rightarrow> result k
             | Some c \<Rightarrow>
                 (case result k of
                    None \<Rightarrow> Some c
                  | Some r \<Rightarrow> Some (if r \<noteq> c then NotConst else r)))
       l Map.empty"

text \<open>
  \<open>str\<close> of an integer, of a literal and of a type. A parameterised type is a
  dictionary, printed with the \<open>repr\<close> of its strings; names are taken to have no
  quotes or characters that \<open>repr\<close> would escape.
\<close>

definition str_int :: "int \<Rightarrow> string" where
  "str_int n = (if n < 0 then ''-'' @ str_nat (nat (- n)) else str_nat (nat n))"

fun str_literal :: "literal \<Rightarrow> string" where
  "str_literal (IntLit n) = str_int n"
| "str_literal (BoolLit b) = (if b then ''True'' else ''False'')"

fun str_type :: "bril_type \<Rightarrow> string" where
  "str_type (Prim s) = s"
| "str_type (Param k t) =
     ''{'' @ [CHR 0x27] @ k @ [CHR 0x27] @ '': '' @
       (case t of Prim s \<Rightarrow> [CHR 0x27] @ s @ [CHR 0x27] | Param k' t' \<Rightarrow> str_type t) @ ''}''"

definition format_instruction :: "instr \<Rightarrow> py_error + string" where
  "format_instruction defn =
     and_then (key (op defn)) (\<lambda>opc.
     and_then (key (type defn)) (\<lambda>type'.
       let val = (case value defn of Some v \<Rightarrow> '' '' @ str_literal v | None \<Rightarrow> '''');
           as = concat (map (\<lambda>a. '' '' @ a) (args_or_empty defn));
           fs = concat (map (\<lambda>f. '' @'' @ f) (case funcs defn of Some fs \<Rightarrow> fs | None \<Rightarrow> []));
           ls = concat (map (\<lambda>l. '' .'' @ l) (case labels defn of Some ls \<Rightarrow> ls | None \<Rightarrow> []))
       in Inr (opc @ fs @ as @ ls @ val)))"

definition reaching_defs_body ::
  "string \<times> instr \<Rightarrow> (string \<rightharpoonup> string set) \<Rightarrow> py_error + (string \<rightharpoonup> string set)" where
  "reaching_defs_body vd outv =
     (case vd of (var, defn) \<Rightarrow>
        and_then (key (type defn)) (\<lambda>t.
        and_then (format_instruction defn) (\<lambda>text.
          Inr (outv(var \<mapsto> {var @ '': '' @ str_type t @ '' = '' @ text @ '';''})))))"

definition reaching_defs :: "instr list \<Rightarrow> (string \<rightharpoonup> string set) \<Rightarrow> py_error + (string \<rightharpoonup> string set)" where
  "reaching_defs is inv' = for_each reaching_defs_body (get_var_defs is) inv'"

definition const_prop_body :: "instr \<Rightarrow> (string \<rightharpoonup> const_value) \<Rightarrow> py_error + (string \<rightharpoonup> const_value)" where
  "const_prop_body instr outv =
     (case dest instr of
        None \<Rightarrow> Inr outv
      | Some d \<Rightarrow>
          and_then (key (op instr)) (\<lambda>opc.
            if opc = ''const'' then
              and_then (key (value instr)) (\<lambda>v. Inr (outv(d \<mapsto> Known (lit_num v))))
            else Inr (outv(d \<mapsto> NotConst))))"

definition const_prop :: "instr list \<Rightarrow> (string \<rightharpoonup> const_value) \<Rightarrow> py_error + (string \<rightharpoonup> const_value)" where
  "const_prop is inv' = for_each const_prop_body is inv'"

definition live_vars :: "instr list \<Rightarrow> string set \<Rightarrow> string set" where
  "live_vars is inv' =
     fold (\<lambda>instr outv. (case dest instr of Some d \<Rightarrow> outv - {d} | None \<Rightarrow> outv)
                            \<union> set (args_or_empty instr))
       (rev is) inv'"

subsection \<open>The worklist algorithm of dataflow/dataflow.py\<close>

text \<open>
  The state of the loop is the worklist with the dictionaries \<open>In\<close> and \<open>Out\<close>.
  \<open>values_at m ls\<close> is the list \<open>[m[l] for l in ls]\<close> that the merge function reads,
  and \<open>block_of_label\<close> finds the block of a label through the first index that
  \<open>block_labels\<close> maps to it.
\<close>

type_synonym 'v df_state = "string set \<times> (string \<rightharpoonup> 'v) \<times> (string \<rightharpoonup> 'v)"

definition values_at :: "(string \<rightharpoonup> 'v) \<Rightarrow> string list \<Rightarrow> py_error + 'v list" where
  "values_at m ls = collect_results (map (\<lambda>l. key (m l)) ls)"

definition block_of_label :: "(nat \<times> string) list \<Rightarrow> instr list list \<Rightarrow> string \<Rightarrow> py_error + instr list" where
  "block_of_label block_labels blocks curr_label =
     (case find (\<lambda>(i, l). l = curr_label) block_labels of
        None \<Rightarrow> Inl ValueError
      | Some (block_index, l) \<Rightarrow> item blocks block_index)"

text \<open>
  One round of the \<open>while\<close> loop, after \<open>curr_label\<close> has been popped: \<open>worklist\<close> is
  what is left of the worklist.
\<close>

definition worklist_round ::
  "cfg \<Rightarrow> (nat \<times> string) list \<Rightarrow> instr list list \<Rightarrow> (instr list \<Rightarrow> 'v \<Rightarrow> py_error + 'v) \<Rightarrow>
     ('v list \<Rightarrow> 'v) \<Rightarrow> bool \<Rightarrow> string \<Rightarrow> 'v df_state \<Rightarrow> py_error + 'v df_state" where
  "worklist_round cfg block_labels blocks transfer merge forward curr_label st =
     (case st of (worklist, In, Out) \<Rightarrow>
        if forward then
          and_then (values_at Out (get_predecessor cfg curr_label)) (\<lambda>outs.
          and_then (block_of_label block_labels blocks curr_label) (\<lambda>curr_block.
          and_then (key (Out curr_label)) (\<lambda>Out_old.
          and_then (transfer curr_block (merge outs)) (\<lambda>out_new.
            if out_new \<noteq> Out_old then
              and_then (lookup cfg curr_label) (\<lambda>succs.
                Inr (worklist \<union> set succs, In(curr_label \<mapsto> merge outs),
                     Out(curr_label \<mapsto> out_new)))
            else Inr (worklist, In(curr_label \<mapsto> merge outs), Out(curr_label \<mapsto> out_new))))))
        else
          and_then (lookup cfg curr_label) (\<lambda>succs.
          and_then (values_at In succs) (\<lambda>ins.
          and_then (block_of_label block_labels blocks curr_label) (\<lambda>curr_block.
          and_then (key (In curr_label)) (\<lambda>In_old.
          and_then (transfer curr_block (merge ins)) (\<lambda>in_new.
            Inr (if in_new \<noteq> In_old then worklist \<union> set (get_predecessor cfg curr_label)
                 else worklist,
                 In(curr_label \<mapsto> in_new), Out(curr_label \<mapsto> merge ins))))))))"

text \<open>
  \<open>worklist.pop()\<close> takes any element of the set. A run of the loop is given by the
  list \<open>pops\<close> of the labels it pops, in order: the result is \<open>None\<close> when \<open>pops\<close> is
  not a run (a label that is not in the worklist, or \<open>pops\<close> ends before the worklist
  is empty), \<open>Some (Inl e)\<close> when the run raises \<open>e\<close>, and \<open>Some (Inr (In, Out))\<close> when it
  returns.
\<close>

fun worklist_algorithm ::
  "cfg \<Rightarrow> (nat \<times> string) list \<Rightarrow> instr list list \<Rightarrow> (instr list \<Rightarrow> 'v \<Rightarrow> py_error + 'v) \<Rightarrow>
     ('v list \<Rightarrow> 'v) \<Rightarrow> bool \<Rightarrow> string list \<Rightarrow> 'v df_state \<Rightarrow>
     (py_error + (string \<rightharpoonup> 'v) \<times> (string \<rightharpoonup> 'v)) option" where
  "worklist_algorithm cfg block_labels blocks transfer merge forward [] st =
     (case st of (worklist, In, Out) \<Rightarrow> if worklist = {} then Some (Inr (In, Out)) else None)"
| "worklist_algorithm cfg block_labels blocks transfer merge forward (curr_label # pops) st =
     (case st of (worklist, In, Out) \<Rightarrow>
        if curr_label \<in> worklist then
          (case worklist_round cfg block_labels blocks transfer merge forward curr_label
                  (worklist - {curr_label}, In, Out) of
             Inl e \<Rightarrow> Some (Inl e)
           | Inr st' \<Rightarrow> worklist_algorithm cfg block_labels blocks transfer merge forward pops st')
        else None)"

text \<open>
  The state in which \<open>run_df\<close> starts the loop: every label in the worklist, and
  \<open>In\<close> and \<open>Out\<close> at the initial value of the analysis for every label.
\<close>

definition run_df_start :: "(nat \<times> string) list \<Rightarrow> 'v \<Rightarrow> 'v df_state" where
  "run_df_start block_labels init =
     (set (map snd block_labels),
      (\<lambda>l. if l \<in> set (map snd block_labels) then Some init else None),
      (\<lambda>l. if l \<in> set (map snd block_labels) then Some init else None))"

subsection \<open>The worklist algorithm of loop/dataflow.py\<close>

text \<open>
  \<open>data_flow_analysis\<close> works on \<open>ins\<close> and \<open>outs\<close>, the values on the near and the
  far side of a block in the direction of the analysis, and swaps them at the end
  of a backward analysis.
\<close>

definition data_flow_round ::
  "graph \<Rightarrow> (string \<times> instr list) list \<Rightarrow> bool \<Rightarrow> ('v list \<Rightarrow> 'v) \<Rightarrow>
     (instr list \<Rightarrow> 'v \<Rightarrow> py_error + 'v) \<Rightarrow> string \<Rightarrow> 'v df_state \<Rightarrow> py_error + 'v df_state" where
  "data_flow_round graph label2block forward merge_fn transfer_fn b st =
     (case st of (worklist, ins, outs) \<Rightarrow>
        and_then (lookup graph b) (\<lambda>node.
        and_then (values_at outs (if forward then predecessors node else successors node)) (\<lambda>vals.
        and_then (lookup label2block b) (\<lambda>block.
        and_then (transfer_fn block (merge_fn vals)) (\<lambda>new_outs.
        and_then (key (outs b)) (\<lambda>old_outs.
          if old_outs \<noteq> new_outs then
            Inr (worklist \<union> set (if forward then successors node else predecessors node),
                 ins(b \<mapsto> merge_fn vals), outs(b \<mapsto> new_outs))
          else Inr (worklist, ins(b \<mapsto> merge_fn vals), outs)))))))"

fun data_flow_loop ::
  "graph \<Rightarrow> (string \<times> instr list) list \<Rightarrow> bool \<Rightarrow> ('v list \<Rightarrow> 'v) \<Rightarrow>
     (instr list \<Rightarrow> 'v \<Rightarrow> py_error + 'v) \<Rightarrow> string list \<Rightarrow> 'v df_state \<Rightarrow>
     (py_error + (string \<rightharpoonup> 'v) \<times> (string \<rightharpoonup> 'v)) option" where
  "data_flow_loop graph label2block forward merge_fn transfer_fn [] st =
     (case st of (worklist, ins, outs) \<Rightarrow>
        if worklist = {} then Some (Inr (if forward then (ins, outs) else (outs, ins))) else None)"
| "data_flow_loop graph label2block forward merge_fn transfer_fn (b # pops) st =
     (case st of (worklist, ins, outs) \<Rightarrow>
        if b \<in> worklist then
          (case data_flow_round graph label2block forward merge_fn transfer_fn b
                  (worklist - {b}, ins, outs) of
             Inl e \<Rightarrow> Some (Inl e)
           | Inr st' \<Rightarrow> data_flow_loop graph label2block forward merge_fn transfer_fn pops st')
        else None)"

definition data_flow_analysis ::
  "graph \<Rightarrow> (string \<times> instr list) list \<Rightarrow> bool \<Rightarrow> 'v \<Rightarrow> ('v list \<Rightarrow> 'v) \<Rightarrow>
     (instr list \<Rightarrow> 'v \<Rightarrow> py_error + 'v) \<Rightarrow> string list \<Rightarrow>
     (py_error + (string \<rightharpoonup> 'v) \<times> (string \<rightharpoonup> 'v)) option" where
  "data_flow_analysis graph label2block forward init merge_fn transfer_fn pops =
     data_flow_loop graph label2block forward merge_fn transfer_fn pops
       (set (map fst graph), Map.empty,
        (\<lambda>l. if l \<in> set (map fst graph) then Some init else None))"

section \<open>The worklist algorithm does not depend on the order of the pops\<close>

text \<open>
  Both worklist loops are instances of one iteration. Each block has a value on its
  near side, merged from the far-side values of the neighbours it reads
  (\<open>nin\<close>), and a value on its far side, the transfer of the near one (\<open>T\<close>); when
  the far value of a block changes, the neighbours that read it (\<open>nout\<close>) go back
  into the worklist. \<open>None\<close> stands for any exception.
\<close>

subsection \<open>Chaotic iteration\<close>

definition values_of :: "(string \<rightharpoonup> 'v) \<Rightarrow> string list \<Rightarrow> 'v list" where
  "values_of far ns = map (the \<circ> far) ns"

definition chaotic_round ::
  "(string \<Rightarrow> string list option) \<Rightarrow> (string \<Rightarrow> string list option) \<Rightarrow> ('v list \<Rightarrow> 'v) \<Rightarrow>
     (string \<Rightarrow> 'v \<Rightarrow> 'v option) \<Rightarrow> string \<Rightarrow> 'v df_state \<Rightarrow> 'v df_state option" where
  "chaotic_round nin nout M T b st =
     (case st of (wl, near, far) \<Rightarrow>
        case nin b of
          None \<Rightarrow> None
        | Some ns \<Rightarrow>
            if \<not> set ns \<subseteq> dom far then None
            else
              (case far b of
                 None \<Rightarrow> None
               | Some old \<Rightarrow>
                   (case T b (M (values_of far ns)) of
                      None \<Rightarrow> None
                    | Some new \<Rightarrow>
                        if new \<noteq> old then
                          (case nout b of
                             None \<Rightarrow> None
                           | Some outs \<Rightarrow>
                               Some (wl \<union> set outs, near(b \<mapsto> M (values_of far ns)),
                                     far(b \<mapsto> new)))
                        else Some (wl, near(b \<mapsto> M (values_of far ns)), far(b \<mapsto> new)))))"

fun chaotic_run ::
  "(string \<Rightarrow> string list option) \<Rightarrow> (string \<Rightarrow> string list option) \<Rightarrow> ('v list \<Rightarrow> 'v) \<Rightarrow>
     (string \<Rightarrow> 'v \<Rightarrow> 'v option) \<Rightarrow> string list \<Rightarrow> 'v df_state \<Rightarrow> 'v df_state option" where
  "chaotic_run nin nout M T [] st = Some st"
| "chaotic_run nin nout M T (b # pops) st =
     (case st of (wl, near, far) \<Rightarrow>
        if b \<in> wl then
          (case chaotic_round nin nout M T b (wl - {b}, near, far) of
             None \<Rightarrow> None
           | Some st' \<Rightarrow> chaotic_run nin nout M T pops st')
        else None)"

text \<open>A block is solved when its two values satisfy the equations of the analysis.\<close>

definition solved ::
  "(string \<Rightarrow> string list option) \<Rightarrow> ('v list \<Rightarrow> 'v) \<Rightarrow> (string \<Rightarrow> 'v \<Rightarrow> 'v option) \<Rightarrow>
     (string \<rightharpoonup> 'v) \<Rightarrow> (string \<rightharpoonup> 'v) \<Rightarrow> string \<Rightarrow> bool" where
  "solved nin M T near far c \<longleftrightarrow>
     (\<exists>ns v. nin c = Some ns \<and> set ns \<subseteq> dom far \<and>
        near c = Some (M (values_of far ns)) \<and>
        T c (M (values_of far ns)) = Some v \<and> far c = Some v)"

definition settled ::
  "(string \<Rightarrow> string list option) \<Rightarrow> ('v list \<Rightarrow> 'v) \<Rightarrow> (string \<Rightarrow> 'v \<Rightarrow> 'v option) \<Rightarrow>
     string set \<Rightarrow> 'v df_state \<Rightarrow> bool" where
  "settled nin M T L st \<longleftrightarrow>
     (case st of (wl, near, far) \<Rightarrow>
        dom far = L \<and> dom near \<subseteq> L \<and> (\<forall>c \<in> L - wl. solved nin M T near far c))"

definition linked :: "(string \<Rightarrow> string list option) \<Rightarrow> (string \<Rightarrow> string list option) \<Rightarrow> bool" where
  "linked nin nout \<longleftrightarrow>
     (\<forall>b c ns outs. nin c = Some ns \<and> b \<in> set ns \<and> nout b = Some outs \<longrightarrow> c \<in> set outs)"

lemma values_of_unchanged:
  "b \<notin> set ns \<Longrightarrow> values_of (far(b \<mapsto> x)) ns = values_of far ns"
  by (induction ns) (auto simp: values_of_def)

lemma values_of_le:
  "set ns \<subseteq> L \<Longrightarrow> \<forall>c \<in> L. \<exists>x y. far c = Some x \<and> sol c = Some y \<and> le x y \<Longrightarrow>
     list_all2 le (values_of far ns) (values_of sol ns)"
  by (induction ns) (auto simp: values_of_def)

lemma chaotic_round_settled:
  assumes link: "linked nin nout"
    and inv: "settled nin M T L (wl, near, far)"
    and b: "b \<in> wl"
    and step: "chaotic_round nin nout M T b (wl - {b}, near, far) = Some st'"
  shows "settled nin M T L st'"
proof -
  from step obtain ns old new where
    ns: "nin b = Some ns" and sub: "set ns \<subseteq> dom far" and old: "far b = Some old" and
    new: "T b (M (values_of far ns)) = Some new"
    by (auto simp: chaotic_round_def split: option.splits if_splits)
  let ?v = "M (values_of far ns)"
  let ?near = "near(b \<mapsto> ?v)" and ?far = "far(b \<mapsto> new)"
  from inv have dom: "dom far = L" "dom near \<subseteq> L"
    and sol: "\<And>c. c \<in> L \<Longrightarrow> c \<notin> wl \<Longrightarrow> solved nin M T near far c"
    by (auto simp: settled_def)
  from old dom have bL: "b \<in> L" by auto
  show ?thesis
  proof (cases "new = old")
    case True
    with step ns sub old new have st': "st' = (wl - {b}, ?near, ?far)"
      by (simp add: chaotic_round_def)
    from True old have far: "?far = far" by (auto simp: fun_upd_idem)
    have "solved nin M T ?near far c" if "c \<in> L" "c \<notin> wl - {b}" for c
    proof (cases "c = b")
      case True
      with ns sub old new \<open>new = old\<close> show ?thesis by (auto simp: solved_def)
    next
      case False
      with that sol [of c] show ?thesis by (auto simp: solved_def)
    qed
    with dom bL show ?thesis unfolding st' far by (auto simp: settled_def)
  next
    case False
    with step ns sub old new obtain outs where outs: "nout b = Some outs"
      and st': "st' = (wl - {b} \<union> set outs, ?near, ?far)"
      by (auto simp: chaotic_round_def split: option.splits)
    have "solved nin M T ?near ?far c" if "c \<in> L" "c \<notin> wl - {b} \<union> set outs" for c
    proof -
      have keep: "values_of ?far ms = values_of far ms" if "nin c = Some ms" for ms
      proof -
        from link that outs \<open>c \<notin> wl - {b} \<union> set outs\<close> have "b \<notin> set ms"
          by (auto simp: linked_def)
        then show ?thesis by (rule values_of_unchanged)
      qed
      show ?thesis
      proof (cases "c = b")
        case True
        with ns sub new keep [of ns] show ?thesis by (auto simp: solved_def)
      next
        case False
        with that have "c \<notin> wl" by auto
        from sol [OF \<open>c \<in> L\<close> this] obtain ms v where
          "nin c = Some ms" "set ms \<subseteq> dom far" "near c = Some (M (values_of far ms))"
          "T c (M (values_of far ms)) = Some v" "far c = Some v"
          by (auto simp: solved_def)
        with False keep [of ms] show ?thesis by (auto simp: solved_def)
      qed
    qed
    with dom bL show ?thesis unfolding st' by (auto simp: settled_def)
  qed
qed

lemma chaotic_run_settled:
  assumes "linked nin nout"
  shows "settled nin M T L st \<Longrightarrow> chaotic_run nin nout M T pops st = Some st' \<Longrightarrow>
    settled nin M T L st'"
proof (induction pops arbitrary: st)
  case Nil
  then show ?case by simp
next
  case (Cons b pops)
  obtain wl near far where st: "st = (wl, near, far)" by (cases st)
  from Cons.prems(2) st obtain st1 where b: "b \<in> wl"
    and r: "chaotic_round nin nout M T b (wl - {b}, near, far) = Some st1"
    and rest: "chaotic_run nin nout M T pops st1 = Some st'"
    by (auto split: if_splits option.splits)
  from chaotic_round_settled [OF assms _ b r] Cons.prems(1) st
  have "settled nin M T L st1" by simp
  from Cons.IH [OF this rest] show ?case .
qed

text \<open>A solution bounds every state of a run from above.\<close>

definition below :: "('v \<Rightarrow> 'v \<Rightarrow> bool) \<Rightarrow> string set \<Rightarrow> (string \<rightharpoonup> 'v) \<Rightarrow> (string \<rightharpoonup> 'v) \<Rightarrow> bool" where
  "below le L far sol \<longleftrightarrow> dom far = L \<and> (\<forall>c \<in> L. \<exists>x y. far c = Some x \<and> sol c = Some y \<and> le x y)"

definition monotone_on ::
  "('v \<Rightarrow> 'v \<Rightarrow> bool) \<Rightarrow> ('v list \<Rightarrow> 'v) \<Rightarrow> (string \<Rightarrow> 'v \<Rightarrow> 'v option) \<Rightarrow> bool" where
  "monotone_on le M T \<longleftrightarrow>
     (\<forall>b xs ys x y. list_all2 le xs ys \<and> T b (M xs) = Some x \<and> T b (M ys) = Some y \<longrightarrow> le x y)"

lemma chaotic_round_below:
  assumes mono: "monotone_on le M T"
    and sol: "\<forall>c \<in> L. solved nin M T near' sol c" "dom sol = L"
    and inv: "below le L far sol"
    and step: "chaotic_round nin nout M T b (wl, near, far) = Some (wl1, near1, far1)"
  shows "below le L far1 sol"
proof -
  from step obtain ns old new where
    ns: "nin b = Some ns" and sub: "set ns \<subseteq> dom far" and old: "far b = Some old" and
    new: "T b (M (values_of far ns)) = Some new" and far1: "far1 = far(b \<mapsto> new)"
    by (auto simp: chaotic_round_def split: option.splits if_splits)
  from inv have dom: "dom far = L"
    and le: "\<And>c. c \<in> L \<Longrightarrow> \<exists>x y. far c = Some x \<and> sol c = Some y \<and> le x y"
    by (auto simp: below_def)
  from old dom have bL: "b \<in> L" by auto
  with sol(1) ns obtain y where y: "T b (M (values_of sol ns)) = Some y" "sol b = Some y"
    by (auto simp: solved_def)
  have "list_all2 le (values_of far ns) (values_of sol ns)"
    using sub dom le by (intro values_of_le [where L = L]) auto
  with mono new y(1) have "le new y" unfolding monotone_on_def by blast
  with y(2) le dom bL show ?thesis unfolding far1 below_def by auto
qed

lemma chaotic_run_below:
  assumes mono: "monotone_on le M T"
    and sol: "\<forall>c \<in> L. solved nin M T near' sol c" "dom sol = L"
  shows "below le L (snd (snd st)) sol \<Longrightarrow> chaotic_run nin nout M T pops st = Some st' \<Longrightarrow>
    below le L (snd (snd st')) sol"
proof (induction pops arbitrary: st)
  case Nil
  then show ?case by simp
next
  case (Cons b pops)
  obtain wl near far where st: "st = (wl, near, far)" by (cases st)
  from Cons.prems(2) st obtain wl1 near1 far1 where
    r: "chaotic_round nin nout M T b (wl - {b}, near, far) = Some (wl1, near1, far1)"
    and rest: "chaotic_run nin nout M T pops (wl1, near1, far1) = Some st'"
    by (auto split: if_splits option.splits)
  from chaotic_round_below [OF mono sol _ r] Cons.prems(1) st
  have "below le L (snd (snd (wl1, near1, far1))) sol" by simp
  from Cons.IH [OF this rest] show ?case .
qed

lemma chaotic_run_deterministic:
  assumes link: "linked nin nout"
    and mono: "monotone_on le M T"
    and anti: "\<And>x y. le x y \<Longrightarrow> le y x \<Longrightarrow> x = y"
    and bot: "\<And>x. le init x"
    and near0: "dom near0 \<subseteq> L"
    and r1: "chaotic_run nin nout M T pops1 (L, near0, \<lambda>l. if l \<in> L then Some init else None)
               = Some ({}, near1, far1)"
    and r2: "chaotic_run nin nout M T pops2 (L, near0, \<lambda>l. if l \<in> L then Some init else None)
               = Some ({}, near2, far2)"
  shows "near1 = near2 \<and> far1 = far2"
proof -
  let ?far0 = "\<lambda>l. if l \<in> L then Some init else None"
  have start: "settled nin M T L (L, near0, ?far0)"
    using near0 by (auto simp: settled_def dom_def)
  from chaotic_run_settled [OF link start r1]
  have s1: "dom far1 = L" "dom near1 \<subseteq> L" "\<forall>c \<in> L. solved nin M T near1 far1 c"
    by (auto simp: settled_def)
  from chaotic_run_settled [OF link start r2]
  have s2: "dom far2 = L" "dom near2 \<subseteq> L" "\<forall>c \<in> L. solved nin M T near2 far2 c"
    by (auto simp: settled_def)
  have b0: "below le L ?far0 sol" if "dom sol = L" for sol
    using that bot by (auto simp: below_def dom_def)
  from chaotic_run_below [OF mono s2(3) s2(1) _ r1] b0 [OF s2(1)]
  have le12: "below le L far1 far2" by simp
  from chaotic_run_below [OF mono s1(3) s1(1) _ r2] b0 [OF s1(1)]
  have le21: "below le L far2 far1" by simp
  have far_eq: "far1 c = far2 c" for c
  proof (cases "c \<in> L")
    case True
    from le12 True obtain x y where xy: "far1 c = Some x" "far2 c = Some y" "le x y"
      unfolding below_def by blast
    from le21 have "\<forall>c \<in> L. \<exists>u v. far2 c = Some u \<and> far1 c = Some v \<and> le u v"
      by (simp add: below_def)
    with True obtain u v where "far2 c = Some u" "far1 c = Some v" "le u v"
      by blast
    with xy have "le y x" by simp
    with xy anti show ?thesis by auto
  next
    case False
    with s1(1) s2(1) show ?thesis by (metis domIff)
  qed
  then have far: "far1 = far2" by (rule ext)
  have "near1 c = near2 c" for c
  proof (cases "c \<in> L")
    case True
    with s1(3) obtain ns where n1: "nin c = Some ns" "near1 c = Some (M (values_of far1 ns))"
      unfolding solved_def by blast
    from True s2(3) obtain ms where n2: "nin c = Some ms" "near2 c = Some (M (values_of far2 ms))"
      unfolding solved_def by blast
    from n1 n2 far show ?thesis by simp
  next
    case False
    with s1(2) s2(2) show ?thesis by (metis domIff subsetD)
  qed
  then have "near1 = near2" by (rule ext)
  with far show ?thesis by simp
qed

subsection \<open>The worklist algorithms are chaotic iterations\<close>

definition block_transfer ::
  "('k \<Rightarrow> py_error + instr list) \<Rightarrow> (instr list \<Rightarrow> 'v \<Rightarrow> py_error + 'v) \<Rightarrow> 'k \<Rightarrow> 'v \<Rightarrow> 'v option" where
  "block_transfer block_of transfer b v =
     (case block_of b of
        Inl e \<Rightarrow> None
      | Inr block \<Rightarrow> (case transfer block v of Inl e \<Rightarrow> None | Inr y \<Rightarrow> Some y))"

lemma collect_results_keys:
  "collect_results (map (\<lambda>l. key (m l)) ls) = Inr vs \<longleftrightarrow> set ls \<subseteq> dom m \<and> vs = map (the \<circ> m) ls"
proof (induction ls arbitrary: vs)
  case Nil
  then show ?case by auto
next
  case (Cons l ls)
  show ?case
  proof (cases "m l")
    case None
    then show ?thesis by (auto simp: key_def)
  next
    case (Some x)
    show ?thesis
    proof (cases "collect_results (map (\<lambda>l. key (m l)) ls)")
      case (Inl e)
      with Cons.IH [of "map (the \<circ> m) ls"] Some show ?thesis
        by (auto simp: key_def)
    next
      case (Inr ws)
      with Cons.IH [of ws] Some show ?thesis
        by (auto simp: key_def)
    qed
  qed
qed

lemma values_at_Inr: "values_at m ls = Inr vs \<longleftrightarrow> set ls \<subseteq> dom m \<and> vs = values_of m ls"
  by (simp add: values_at_def values_of_def collect_results_keys)

lemma key_Inr_iff: "key x = Inr y \<longleftrightarrow> x = Some y"
  by (cases x) (auto simp: key_def)

lemma lookup_Inr_iff: "lookup d k = Inr v \<longleftrightarrow> map_of d k = Some v"
  by (auto simp: lookup_def split: option.splits)

lemma worklist_round_forward:
  assumes "worklist_round cfg block_labels blocks transfer merge True b (wl, In, Out) = Inr (wl', In', Out')"
  shows "chaotic_round (\<lambda>c. Some (get_predecessor cfg c)) (map_of cfg) merge
           (block_transfer (block_of_label block_labels blocks) transfer) b (wl, In, Out)
         = Some (wl', In', Out')"
  using assms
  by (auto simp: worklist_round_def chaotic_round_def block_transfer_def and_then_Inr_iff
      values_at_Inr key_Inr_iff lookup_Inr_iff split: if_splits)

lemma worklist_round_backward:
  assumes "worklist_round cfg block_labels blocks transfer merge False b (wl, In, Out) = Inr (wl', In', Out')"
  shows "chaotic_round (map_of cfg) (\<lambda>c. Some (get_predecessor cfg c)) merge
           (block_transfer (block_of_label block_labels blocks) transfer) b (wl, Out, In)
         = Some (wl', Out', In')"
  using assms
  by (auto simp: worklist_round_def chaotic_round_def block_transfer_def and_then_Inr_iff
      values_at_Inr key_Inr_iff lookup_Inr_iff split: if_splits)

lemma worklist_algorithm_forward:
  "worklist_algorithm cfg block_labels blocks transfer merge True pops (wl, In, Out) = Some (Inr (In', Out'))
   \<Longrightarrow> chaotic_run (\<lambda>c. Some (get_predecessor cfg c)) (map_of cfg) merge
           (block_transfer (block_of_label block_labels blocks) transfer) pops (wl, In, Out)
         = Some ({}, In', Out')"
proof (induction pops arbitrary: wl In Out)
  case Nil
  then show ?case by (auto split: if_splits)
next
  case (Cons b pops)
  from Cons.prems obtain wl1 In1 Out1 where b: "b \<in> wl"
    and r: "worklist_round cfg block_labels blocks transfer merge True b (wl - {b}, In, Out)
              = Inr (wl1, In1, Out1)"
    and rest: "worklist_algorithm cfg block_labels blocks transfer merge True pops (wl1, In1, Out1)
              = Some (Inr (In', Out'))"
    by (auto split: if_splits sum.splits)
  from worklist_round_forward [OF r] Cons.IH [OF rest] b show ?case by simp
qed

lemma worklist_algorithm_backward:
  "worklist_algorithm cfg block_labels blocks transfer merge False pops (wl, In, Out) = Some (Inr (In', Out'))
   \<Longrightarrow> chaotic_run (map_of cfg) (\<lambda>c. Some (get_predecessor cfg c)) merge
           (block_transfer (block_of_label block_labels blocks) transfer) pops (wl, Out, In)
         = Some ({}, Out', In')"
proof (induction pops arbitrary: wl In Out)
  case Nil
  then show ?case by (auto split: if_splits)
next
  case (Cons b pops)
  from Cons.prems obtain wl1 In1 Out1 where b: "b \<in> wl"
    and r: "worklist_round cfg block_labels blocks transfer merge False b (wl - {b}, In, Out)
              = Inr (wl1, In1, Out1)"
    and rest: "worklist_algorithm cfg block_labels blocks transfer merge False pops (wl1, In1, Out1)
              = Some (Inr (In', Out'))"
    by (auto split: if_splits sum.splits)
  from worklist_round_backward [OF r] Cons.IH [OF rest] b show ?case by simp
qed

lemma get_predecessor_iff:
  "b \<in> set (get_predecessor cfg c) \<longleftrightarrow> (\<exists>succ. (b, succ) \<in> set cfg \<and> c \<in> set succ)"
  by (force simp: get_predecessor_def)

lemma linked_forward: "distinct (map fst cfg) \<Longrightarrow> linked (\<lambda>c. Some (get_predecessor cfg c)) (map_of cfg)"
  by (auto simp: linked_def get_predecessor_iff dest!: map_of_SomeD dest: eq_key_imp_eq_value)

lemma linked_backward: "linked (map_of cfg) (\<lambda>c. Some (get_predecessor cfg c))"
  by (auto simp: linked_def get_predecessor_iff dest: map_of_SomeD)

lemma worklist_algorithm_deterministic:
  assumes mono: "monotone_on le merge (block_transfer (block_of_label block_labels blocks) transfer)"
    and anti: "\<And>x y. le x y \<Longrightarrow> le y x \<Longrightarrow> x = y"
    and bot: "\<And>x. le init x"
    and cfg: "forward \<longrightarrow> distinct (map fst cfg)"
    and r1: "worklist_algorithm cfg block_labels blocks transfer merge forward pops1
               (run_df_start block_labels init) = Some (Inr r1)"
    and r2: "worklist_algorithm cfg block_labels blocks transfer merge forward pops2
               (run_df_start block_labels init) = Some (Inr r2)"
  shows "r1 = r2"
proof -
  let ?L = "set (map snd block_labels)"
  let ?start = "\<lambda>l. if l \<in> ?L then Some init else None"
  obtain In1 Out1 In2 Out2 where r: "r1 = (In1, Out1)" "r2 = (In2, Out2)"
    by (cases r1, cases r2) blast
  have d: "dom ?start \<subseteq> ?L"
    by (auto split: if_splits)
  show ?thesis
  proof (cases forward)
    case True
    with r1 r2 r have
      "worklist_algorithm cfg block_labels blocks transfer merge True pops1 (?L, ?start, ?start)
         = Some (Inr (In1, Out1))"
      "worklist_algorithm cfg block_labels blocks transfer merge True pops2 (?L, ?start, ?start)
         = Some (Inr (In2, Out2))"
      by (simp_all add: run_df_start_def)
    from chaotic_run_deterministic [OF linked_forward mono anti bot d
        worklist_algorithm_forward [OF this(1)] worklist_algorithm_forward [OF this(2)]]
      True cfg r
    show ?thesis by simp
  next
    case False
    with r1 r2 r have
      "worklist_algorithm cfg block_labels blocks transfer merge False pops1 (?L, ?start, ?start)
         = Some (Inr (In1, Out1))"
      "worklist_algorithm cfg block_labels blocks transfer merge False pops2 (?L, ?start, ?start)
         = Some (Inr (In2, Out2))"
      by (simp_all add: run_df_start_def)
    from chaotic_run_deterministic [OF linked_backward mono anti bot d
        worklist_algorithm_backward [OF this(1)] worklist_algorithm_backward [OF this(2)]]
      r
    show ?thesis by simp
  qed
qed

definition consistent_graph :: "graph \<Rightarrow> bool" where
  "consistent_graph graph \<longleftrightarrow>
     (\<forall>b c nb nc. map_of graph b = Some nb \<and> map_of graph c = Some nc \<longrightarrow>
        (b \<in> set (predecessors nc) \<longleftrightarrow> c \<in> set (successors nb)))"

definition near_side :: "graph \<Rightarrow> bool \<Rightarrow> string \<Rightarrow> string list option" where
  "near_side graph forward c =
     map_option (\<lambda>node. if forward then predecessors node else successors node) (map_of graph c)"

lemma linked_graph:
  assumes "consistent_graph graph"
  shows "linked (near_side graph forward) (near_side graph (\<not> forward))"
  unfolding linked_def
proof (intro allI impI, elim conjE)
  fix b c ns outs
  assume c: "near_side graph forward c = Some ns" and b: "b \<in> set ns"
    and o: "near_side graph (\<not> forward) b = Some outs"
  from c obtain nc where nc: "map_of graph c = Some nc"
    and ns: "ns = (if forward then predecessors nc else successors nc)"
    by (auto simp: near_side_def)
  from o obtain nb where nb: "map_of graph b = Some nb"
    and outs: "outs = (if forward then successors nb else predecessors nb)"
    by (auto simp: near_side_def)
  from assms nb nc have 1: "b \<in> set (predecessors nc) \<longleftrightarrow> c \<in> set (successors nb)"
    unfolding consistent_graph_def by blast
  from assms nb nc have 2: "c \<in> set (predecessors nb) \<longleftrightarrow> b \<in> set (successors nc)"
    unfolding consistent_graph_def by blast
  from b ns outs 1 2 show "c \<in> set outs"
    by (cases forward) simp_all
qed

lemma block_transfer_Some:
  "block_transfer block_of transfer b v = Some y \<longleftrightarrow>
     (\<exists>block. block_of b = Inr block \<and> transfer block v = Inr y)"
  by (auto simp: block_transfer_def split: sum.splits)

lemma data_flow_round_chaotic:
  assumes r: "data_flow_round graph label2block forward merge_fn transfer_fn b (wl, ins, outs)
             = Inr (wl', ins', outs')"
  shows "chaotic_round (near_side graph forward) (near_side graph (\<not> forward)) merge_fn
           (block_transfer (lookup label2block) transfer_fn) b (wl, ins, outs)
         = Some (wl', ins', outs')"
proof -
  note defs = data_flow_round_def and_then_def
  obtain node where node: "lookup graph b = Inr node"
    using r by (cases "lookup graph b") (simp_all add: defs)
  define ns where "ns = (if forward then predecessors node else successors node)"
  define os where "os = (if forward then successors node else predecessors node)"
  obtain vals where vals: "values_at outs ns = Inr vals"
    using r node by (cases "values_at outs ns") (simp_all add: defs ns_def)
  obtain block where block: "lookup label2block b = Inr block"
    using r node vals by (cases "lookup label2block b") (simp_all add: defs ns_def)
  obtain new where new: "transfer_fn block (merge_fn vals) = Inr new"
    using r node vals block
    by (cases "transfer_fn block (merge_fn vals)") (simp_all add: defs ns_def)
  obtain old where old: "outs b = Some old"
    using r node vals block new by (cases "outs b") (simp_all add: defs key_def ns_def)
  have res: "(if old \<noteq> new then (wl \<union> set os, ins(b \<mapsto> merge_fn vals), outs(b \<mapsto> new))
             else (wl, ins(b \<mapsto> merge_fn vals), outs)) = (wl', ins', outs')"
    using r node vals block new old
    by (simp add: defs key_def ns_def os_def split: if_splits)
  from vals have sub: "set ns \<subseteq> dom outs" and v: "vals = values_of outs ns"
    unfolding values_at_Inr by blast+
  from node have m: "map_of graph b = Some node" by (simp add: lookup_Inr_iff)
  have n: "near_side graph forward b = Some ns"
    using m by (simp add: near_side_def ns_def)
  have o: "near_side graph (\<not> forward) b = Some os"
    using m by (simp add: near_side_def os_def)
  have t: "block_transfer (lookup label2block) transfer_fn b (merge_fn (values_of outs ns)) = Some new"
    using block new v by (simp add: block_transfer_def)
  show ?thesis
  proof (cases "old = new")
    case True
    with old have "outs(b \<mapsto> new) = outs" by (auto simp: fun_upd_idem)
    with True res v have "(wl', ins', outs') =
        (wl, ins(b \<mapsto> merge_fn (values_of outs ns)), outs(b \<mapsto> new))"
      by auto
    with True sub show ?thesis
      by (simp add: chaotic_round_def n o t old)
  next
    case False
    with res v have "(wl', ins', outs') =
        (wl \<union> set os, ins(b \<mapsto> merge_fn (values_of outs ns)), outs(b \<mapsto> new))"
      by auto
    with False sub show ?thesis
      by (simp add: chaotic_round_def n o t old)
  qed
qed

lemma data_flow_loop_chaotic:
  "data_flow_loop graph label2block forward merge_fn transfer_fn pops (wl, ins, outs) = Some (Inr r)
   \<Longrightarrow> \<exists>ins' outs'.
         chaotic_run (near_side graph forward) (near_side graph (\<not> forward)) merge_fn
           (block_transfer (lookup label2block) transfer_fn) pops (wl, ins, outs)
         = Some ({}, ins', outs') \<and> r = (if forward then (ins', outs') else (outs', ins'))"
proof (induction pops arbitrary: wl ins outs)
  case Nil
  then show ?case by (auto split: if_splits)
next
  case (Cons b pops)
  from Cons.prems obtain wl1 ins1 outs1 where b: "b \<in> wl"
    and r: "data_flow_round graph label2block forward merge_fn transfer_fn b (wl - {b}, ins, outs)
              = Inr (wl1, ins1, outs1)"
    and rest: "data_flow_loop graph label2block forward merge_fn transfer_fn pops (wl1, ins1, outs1)
              = Some (Inr r)"
    by (auto split: if_splits sum.splits)
  from data_flow_round_chaotic [OF r] Cons.IH [OF rest] b show ?case by simp
qed

lemma data_flow_analysis_deterministic:
  assumes mono: "monotone_on le merge_fn (block_transfer (lookup label2block) transfer_fn)"
    and anti: "\<And>x y. le x y \<Longrightarrow> le y x \<Longrightarrow> x = y"
    and bot: "\<And>x. le init x"
    and graph: "consistent_graph graph"
    and r1: "data_flow_analysis graph label2block forward init merge_fn transfer_fn pops1 = Some (Inr r1)"
    and r2: "data_flow_analysis graph label2block forward init merge_fn transfer_fn pops2 = Some (Inr r2)"
  shows "r1 = r2"
proof -
  let ?L = "set (map fst graph)"
  from r1 obtain i1 o1 where
    c1: "chaotic_run (near_side graph forward) (near_side graph (\<not> forward)) merge_fn
           (block_transfer (lookup label2block) transfer_fn) pops1
           (?L, Map.empty, \<lambda>l. if l \<in> ?L then Some init else None) = Some ({}, i1, o1)"
    and e1: "r1 = (if forward then (i1, o1) else (o1, i1))"
    unfolding data_flow_analysis_def by (blast dest: data_flow_loop_chaotic)
  from r2 obtain i2 o2 where
    c2: "chaotic_run (near_side graph forward) (near_side graph (\<not> forward)) merge_fn
           (block_transfer (lookup label2block) transfer_fn) pops2
           (?L, Map.empty, \<lambda>l. if l \<in> ?L then Some init else None) = Some ({}, i2, o2)"
    and e2: "r2 = (if forward then (i2, o2) else (o2, i2))"
    unfolding data_flow_analysis_def by (blast dest: data_flow_loop_chaotic)
  have d: "dom (Map.empty :: string \<rightharpoonup> 'a) \<subseteq> ?L" by simp
  from chaotic_run_deterministic [OF linked_graph [OF graph] mono anti bot d c1 c2] e1 e2
  show ?thesis by simp
qed

section \<open>The analyses are monotone\<close>

subsection \<open>Liveness is monotone\<close>

lemma fold_union: "fold (\<lambda>s acc. acc \<union> s) xs a = a \<union> \<Union> (set xs)"
  by (induction xs arbitrary: a) auto

lemma union_mono: "list_all2 (\<subseteq>) xs ys \<Longrightarrow> fold (\<lambda>s acc. acc \<union> s) xs {} \<subseteq> fold (\<lambda>s acc. acc \<union> s) ys {}"
  unfolding fold_union by (induction rule: list_all2_induct) auto

lemma fold_mono:
  assumes "\<And>x a b. le a b \<Longrightarrow> le (f x a) (f x b)"
  shows "le a b \<Longrightarrow> le (fold f xs a) (fold f xs b)"
  using assms by (induction xs arbitrary: a b) auto

lemma live_func_mono: "A \<subseteq> B \<Longrightarrow> live_func block A \<subseteq> live_func block B"
  unfolding live_func_def by (rule fold_mono) auto

lemma live_vars_mono: "A \<subseteq> B \<Longrightarrow> live_vars block A \<subseteq> live_vars block B"
  unfolding live_vars_def by (rule fold_mono) (auto split: option.splits)

lemma block_transfer_total:
  "block_transfer block_of (\<lambda>block v. Inr (f block v)) b v = Some y \<longleftrightarrow>
     (\<exists>block. block_of b = Inr block \<and> y = f block v)"
  by (auto simp: block_transfer_def split: sum.splits)

lemma live_func_monotone:
  "monotone_on (\<subseteq>) union (block_transfer block_of (\<lambda>block v. Inr (live_func block v)))"
  unfolding monotone_on_def block_transfer_total union_def
  by (auto dest!: union_mono dest: live_func_mono [THEN subsetD])

lemma live_vars_monotone:
  "monotone_on (\<subseteq>) union_sets (block_transfer block_of (\<lambda>block v. Inr (live_vars block v)))"
  unfolding monotone_on_def block_transfer_total union_sets_def
  by (auto dest!: union_mono dest: live_vars_mono [THEN subsetD])

subsection \<open>Constant propagation is monotone\<close>

definition slot_le :: "const_value option \<Rightarrow> const_value option \<Rightarrow> bool" where
  "slot_le a b \<longleftrightarrow> a = None \<or> a = b \<or> b = Some NotConst"

definition const_le :: "(string \<rightharpoonup> const_value) \<Rightarrow> (string \<rightharpoonup> const_value) \<Rightarrow> bool" where
  "const_le d1 d2 \<longleftrightarrow> (\<forall>var. slot_le (d1 var) (d2 var))"

fun join_slot :: "const_value option \<Rightarrow> const_value option \<Rightarrow> const_value option" where
  "join_slot None acc = acc"
| "join_slot (Some v) None = Some v"
| "join_slot (Some v) (Some w) = Some (if w = v then v else NotConst)"

lemma const_le_antisym: "const_le x y \<Longrightarrow> const_le y x \<Longrightarrow> x = y"
proof (rule ext)
  fix var
  assume "const_le x y" "const_le y x"
  then have "slot_le (x var) (y var)" "slot_le (y var) (x var)"
    by (simp_all add: const_le_def)
  then show "x var = y var" by (auto simp: slot_le_def)
qed

lemma const_le_empty: "const_le Map.empty x"
  by (simp add: const_le_def slot_le_def)

lemma join_slot_mono:
  "slot_le a a' \<Longrightarrow> slot_le c c' \<Longrightarrow> slot_le (join_slot a c) (join_slot a' c')"
  by (cases a; cases a'; cases c; cases c') (auto simp: slot_le_def)

lemma fold_join_mono:
  "list_all2 (\<lambda>d d'. slot_le (d var) (d' var)) xs ys \<Longrightarrow> slot_le acc acc' \<Longrightarrow>
     slot_le (fold (\<lambda>d acc. join_slot (d var) acc) xs acc)
             (fold (\<lambda>d acc. join_slot (d var) acc) ys acc')"
proof (induction arbitrary: acc acc' rule: list_all2_induct)
  case Nil
  then show ?case by simp
next
  case (Cons d xs d' ys)
  from Cons.hyps(1) Cons.prems have "slot_le (join_slot (d var) acc) (join_slot (d' var) acc')"
    by (rule join_slot_mono)
  from Cons.IH [OF this] show ?case by simp
qed

lemma cprop_merge_fold:
  "fold (\<lambda>d out var.
           case d var of
             None \<Rightarrow> out var
           | Some v \<Rightarrow>
               (case out var of
                  Some w \<Rightarrow> Some (if w = v then v else NotConst)
                | None \<Rightarrow> Some v)) ds out var
   = fold (\<lambda>d acc. join_slot (d var) acc) ds (out var)"
proof (induction ds arbitrary: out)
  case Nil
  then show ?case by simp
next
  case (Cons d ds)
  have "(case d var of None \<Rightarrow> out var
         | Some v \<Rightarrow> (case out var of Some w \<Rightarrow> Some (if w = v then v else NotConst)
                       | None \<Rightarrow> Some v)) = join_slot (d var) (out var)"
    by (cases "d var"; cases "out var") auto
  with Cons.IH show ?case by simp
qed

lemma merge_consts_fold:
  "fold (\<lambda>m result k.
           case m k of
             None \<Rightarrow> result k
           | Some c \<Rightarrow>
               (case result k of
                  None \<Rightarrow> Some c
                | Some r \<Rightarrow> Some (if r \<noteq> c then NotConst else r))) ds out var
   = fold (\<lambda>d acc. join_slot (d var) acc) ds (out var)"
proof (induction ds arbitrary: out)
  case Nil
  then show ?case by simp
next
  case (Cons d ds)
  have "(case d var of None \<Rightarrow> out var
         | Some c \<Rightarrow> (case out var of None \<Rightarrow> Some c
                       | Some r \<Rightarrow> Some (if r \<noteq> c then NotConst else r)))
        = join_slot (d var) (out var)"
    by (cases "d var"; cases "out var") auto
  with Cons.IH show ?case by simp
qed

lemma list_all2_const_le_at:
  "list_all2 const_le xs ys \<Longrightarrow> list_all2 (\<lambda>d d'. slot_le (d var) (d' var)) xs ys"
  by (erule list_all2_mono) (simp add: const_le_def)

lemma cprop_merge_mono:
  assumes "list_all2 const_le xs ys"
  shows "const_le (cprop_merge xs) (cprop_merge ys)"
  unfolding const_le_def
proof
  fix var
  have "slot_le (fold (\<lambda>d acc. join_slot (d var) acc) xs None)
                (fold (\<lambda>d acc. join_slot (d var) acc) ys None)"
    by (rule fold_join_mono [OF list_all2_const_le_at [OF assms]]) (simp add: slot_le_def)
  then show "slot_le (cprop_merge xs var) (cprop_merge ys var)"
    unfolding cprop_merge_def cprop_merge_fold by simp
qed

lemma merge_consts_mono:
  assumes "list_all2 const_le xs ys"
  shows "const_le (merge_consts xs) (merge_consts ys)"
  unfolding const_le_def
proof
  fix var
  have "slot_le (fold (\<lambda>d acc. join_slot (d var) acc) xs None)
                (fold (\<lambda>d acc. join_slot (d var) acc) ys None)"
    by (rule fold_join_mono [OF list_all2_const_le_at [OF assms]]) (simp add: slot_le_def)
  then show "slot_le (merge_consts xs var) (merge_consts ys var)"
    unfolding merge_consts_def merge_consts_fold by simp
qed

lemma for_each_mono:
  assumes "\<And>i x y x' y'. le x y \<Longrightarrow> body i x = Inr x' \<Longrightarrow> body i y = Inr y' \<Longrightarrow> le x' y'"
  shows "le x y \<Longrightarrow> for_each body is x = Inr x' \<Longrightarrow> for_each body is y = Inr y' \<Longrightarrow> le x' y'"
proof (induction "is" arbitrary: x y)
  case Nil
  then show ?case by simp
next
  case (Cons i "is")
  from Cons.prems(2) obtain x1 where x1: "body i x = Inr x1" "for_each body is x1 = Inr x'"
    by (auto simp: and_then_Inr_iff)
  from Cons.prems(3) obtain y1 where y1: "body i y = Inr y1" "for_each body is y1 = Inr y'"
    by (auto simp: and_then_Inr_iff)
  from assms [OF Cons.prems(1) x1(1) y1(1)] have "le x1 y1" .
  from Cons.IH [OF this x1(2) y1(2)] show ?case .
qed

lemma const_le_upd: "const_le x y \<Longrightarrow> const_le (x(d \<mapsto> c)) (y(d \<mapsto> c))"
  by (simp add: const_le_def slot_le_def)

lemma const_le_upd_top: "const_le x y \<Longrightarrow> const_le (x(d \<mapsto> c)) (y(d \<mapsto> NotConst))"
  by (simp add: const_le_def slot_le_def)

lemma cprop_func_body_mono:
  "const_le x y \<Longrightarrow> cprop_func_body i x = Inr x' \<Longrightarrow> cprop_func_body i y = Inr y' \<Longrightarrow> const_le x' y'"
  by (auto simp: cprop_func_body_def and_then_Inr_iff const_le_upd const_le_upd_top split: if_splits)

lemma const_prop_body_mono:
  "const_le x y \<Longrightarrow> const_prop_body i x = Inr x' \<Longrightarrow> const_prop_body i y = Inr y' \<Longrightarrow> const_le x' y'"
  by (auto simp: const_prop_body_def and_then_Inr_iff const_le_upd const_le_upd_top
      split: if_splits option.splits)

lemma cprop_monotone: "monotone_on const_le cprop_merge (block_transfer block_of cprop_func)"
  unfolding monotone_on_def
proof (intro allI impI, elim conjE)
  fix b xs ys x y
  assume l: "list_all2 const_le xs ys"
    and x: "block_transfer block_of cprop_func b (cprop_merge xs) = Some x"
    and y: "block_transfer block_of cprop_func b (cprop_merge ys) = Some y"
  from x obtain block where block: "block_of b = Inr block"
    and fx: "for_each cprop_func_body block (cprop_merge xs) = Inr x"
    unfolding block_transfer_Some cprop_func_def by blast
  from y block have fy: "for_each cprop_func_body block (cprop_merge ys) = Inr y"
    unfolding block_transfer_Some cprop_func_def by simp
  from cprop_merge_mono [OF l] fx fy show "const_le x y"
    by (rule for_each_mono [where le = const_le, rotated 1]) (rule cprop_func_body_mono)
qed

lemma const_prop_monotone: "monotone_on const_le merge_consts (block_transfer block_of const_prop)"
  unfolding monotone_on_def
proof (intro allI impI, elim conjE)
  fix b xs ys x y
  assume l: "list_all2 const_le xs ys"
    and x: "block_transfer block_of const_prop b (merge_consts xs) = Some x"
    and y: "block_transfer block_of const_prop b (merge_consts ys) = Some y"
  from x obtain block where block: "block_of b = Inr block"
    and fx: "for_each const_prop_body block (merge_consts xs) = Inr x"
    unfolding block_transfer_Some const_prop_def by blast
  from y block have fy: "for_each const_prop_body block (merge_consts ys) = Inr y"
    unfolding block_transfer_Some const_prop_def by simp
  from merge_consts_mono [OF l] fx fy show "const_le x y"
    by (rule for_each_mono [where le = const_le, rotated 1]) (rule const_prop_body_mono)
qed

subsection \<open>Reaching definitions are monotone\<close>

definition defs_le :: "(string \<rightharpoonup> string set) \<Rightarrow> (string \<rightharpoonup> string set) \<Rightarrow> bool" where
  "defs_le d1 d2 \<longleftrightarrow> (\<forall>k s. d1 k = Some s \<longrightarrow> (\<exists>t. d2 k = Some t \<and> s \<subseteq> t))"

lemma defs_leD: "defs_le x y \<Longrightarrow> x k = Some s \<Longrightarrow> \<exists>t. y k = Some t \<and> s \<subseteq> t"
  by (simp add: defs_le_def)

lemma defs_le_antisym:
  assumes "defs_le x y" "defs_le y x"
  shows "x = y"
proof (rule ext)
  fix k
  show "x k = y k"
  proof (cases "x k")
    case None
    show ?thesis
    proof (cases "y k")
      case (Some t)
      from defs_leD [OF assms(2) Some] None show ?thesis by simp
    qed (simp add: None)
  next
    case (Some s)
    from defs_leD [OF assms(1) Some] obtain t where t: "y k = Some t" "s \<subseteq> t" by blast
    from defs_leD [OF assms(2) t(1)] Some have "t \<subseteq> s" by simp
    with t Some show ?thesis by auto
  qed
qed

lemma defs_le_empty: "defs_le Map.empty x"
  by (simp add: defs_le_def)

lemma defs_le_get:
  assumes "defs_le m m'"
  shows "(case m k of Some s \<Rightarrow> s | None \<Rightarrow> {}) \<subseteq> (case m' k of Some s \<Rightarrow> s | None \<Rightarrow> {})"
proof (cases "m k")
  case None
  then show ?thesis by simp
next
  case (Some s)
  from defs_leD [OF assms Some] Some show ?thesis by auto
qed

lemma fold_defs_mono:
  "list_all2 defs_le xs ys \<Longrightarrow> A \<subseteq> B \<Longrightarrow>
     fold (\<lambda>m acc. acc \<union> (case m k of Some s \<Rightarrow> s | None \<Rightarrow> {})) xs A
     \<subseteq> fold (\<lambda>m acc. acc \<union> (case m k of Some s \<Rightarrow> s | None \<Rightarrow> {})) ys B"
proof (induction arbitrary: A B rule: list_all2_induct)
  case Nil
  then show ?case by simp
next
  case (Cons m xs m' ys)
  from defs_le_get [OF Cons.hyps(1), of k] Cons.prems
  have "A \<union> (case m k of Some s \<Rightarrow> s | None \<Rightarrow> {})
      \<subseteq> B \<union> (case m' k of Some s \<Rightarrow> s | None \<Rightarrow> {})"
    by blast
  from Cons.IH [OF this] show ?case by simp
qed

lemma list_ex_defs:
  "list_all2 defs_le xs ys \<Longrightarrow> list_ex (\<lambda>m. m k \<noteq> None) xs \<Longrightarrow> list_ex (\<lambda>m. m k \<noteq> None) ys"
proof (induction rule: list_all2_induct)
  case Nil
  then show ?case by simp
next
  case (Cons m xs m' ys)
  show ?case
  proof (cases "m k")
    case None
    with Cons show ?thesis by simp
  next
    case (Some s)
    from defs_leD [OF Cons.hyps(1) Some] show ?thesis by auto
  qed
qed

lemma merge_dicts_mono:
  assumes "list_all2 defs_le xs ys"
  shows "defs_le (merge_dicts xs) (merge_dicts ys)"
  unfolding defs_le_def
proof (intro allI impI)
  fix k s
  assume "merge_dicts xs k = Some s"
  then have ex: "list_ex (\<lambda>m. m k \<noteq> None) xs"
    and s: "s = fold (\<lambda>m acc. acc \<union> (case m k of Some s \<Rightarrow> s | None \<Rightarrow> {})) xs {}"
    by (auto simp: merge_dicts_def split: if_splits)
  from list_ex_defs [OF assms ex]
  have "merge_dicts ys k = Some (fold (\<lambda>m acc. acc \<union> (case m k of Some s \<Rightarrow> s | None \<Rightarrow> {})) ys {})"
    by (simp add: merge_dicts_def)
  moreover from fold_defs_mono [OF assms, of "{}" "{}" k] s
  have "s \<subseteq> fold (\<lambda>m acc. acc \<union> (case m k of Some s \<Rightarrow> s | None \<Rightarrow> {})) ys {}"
    by simp
  ultimately show "\<exists>t. merge_dicts ys k = Some t \<and> s \<subseteq> t" by blast
qed

lemma defs_le_upd: "defs_le x y \<Longrightarrow> defs_le (x(d \<mapsto> c)) (y(d \<mapsto> c))"
  by (simp add: defs_le_def)

lemma reaching_defs_body_mono:
  "defs_le x y \<Longrightarrow> reaching_defs_body i x = Inr x' \<Longrightarrow> reaching_defs_body i y = Inr y' \<Longrightarrow> defs_le x' y'"
  by (cases i) (auto simp: reaching_defs_body_def and_then_Inr_iff defs_le_upd)

lemma reaching_defs_monotone: "monotone_on defs_le merge_dicts (block_transfer block_of reaching_defs)"
  unfolding monotone_on_def
proof (intro allI impI, elim conjE)
  fix b xs ys x y
  assume l: "list_all2 defs_le xs ys"
    and x: "block_transfer block_of reaching_defs b (merge_dicts xs) = Some x"
    and y: "block_transfer block_of reaching_defs b (merge_dicts ys) = Some y"
  from x obtain block where block: "block_of b = Inr block"
    and fx: "for_each reaching_defs_body (get_var_defs block) (merge_dicts xs) = Inr x"
    unfolding block_transfer_Some reaching_defs_def by blast
  from y block have fy: "for_each reaching_defs_body (get_var_defs block) (merge_dicts ys) = Inr y"
    unfolding block_transfer_Some reaching_defs_def by simp
  from merge_dicts_mono [OF l] fx fy show "defs_le x y"
    by (rule for_each_mono [where le = defs_le, rotated 1]) (rule reaching_defs_body_mono)
qed

section \<open>The result of an analysis\<close>

text \<open>
  C5. Two runs of a worklist loop that return give the same \<open>In\<close> and \<open>Out\<close>,
  whatever the two orders in which they pop the blocks: for constant
  propagation and liveness with \<open>worklist_algorithm\<close>, started as \<open>run_df\<close> starts it,
  on any blocks, labels and graph (a dictionary, so with distinct keys), and for
  reaching definitions, constant propagation and liveness with \<open>data_flow_analysis\<close>,
  on any graph whose predecessor sets are the inverse of its successor sets.
\<close>

theorem worklist_result_independent_of_pop_order:
  "(distinct (map fst cfg) \<and>
      worklist_algorithm cfg block_labels blocks cprop_func cprop_merge True cp1
        (run_df_start block_labels Map.empty) = Some (Inr c1) \<and>
      worklist_algorithm cfg block_labels blocks cprop_func cprop_merge True cp2
        (run_df_start block_labels Map.empty) = Some (Inr c2) \<longrightarrow> c1 = c2) \<and>
   (worklist_algorithm cfg block_labels blocks (\<lambda>block v. Inr (live_func block v)) union False lp1
        (run_df_start block_labels {}) = Some (Inr l1) \<and>
      worklist_algorithm cfg block_labels blocks (\<lambda>block v. Inr (live_func block v)) union False lp2
        (run_df_start block_labels {}) = Some (Inr l2) \<longrightarrow> l1 = l2) \<and>
   (consistent_graph graph \<and>
      data_flow_analysis graph label2block True Map.empty merge_dicts reaching_defs dp1 = Some (Inr d1) \<and>
      data_flow_analysis graph label2block True Map.empty merge_dicts reaching_defs dp2 = Some (Inr d2)
      \<longrightarrow> d1 = d2) \<and>
   (consistent_graph graph \<and>
      data_flow_analysis graph label2block True Map.empty merge_consts const_prop kp1 = Some (Inr k1) \<and>
      data_flow_analysis graph label2block True Map.empty merge_consts const_prop kp2 = Some (Inr k2)
      \<longrightarrow> k1 = k2) \<and>
   (consistent_graph graph \<and>
      data_flow_analysis graph label2block False {} union_sets (\<lambda>is v. Inr (live_vars is v)) vp1
        = Some (Inr v1) \<and>
      data_flow_analysis graph label2block False {} union_sets (\<lambda>is v. Inr (live_vars is v)) vp2
        = Some (Inr v2) \<longrightarrow> v1 = v2)"
proof (intro conjI impI; elim conjE)
  assume "distinct (map fst cfg)"
    and "worklist_algorithm cfg block_labels blocks cprop_func cprop_merge True cp1
        (run_df_start block_labels Map.empty) = Some (Inr c1)"
    and "worklist_algorithm cfg block_labels blocks cprop_func cprop_merge True cp2
        (run_df_start block_labels Map.empty) = Some (Inr c2)"
  with cprop_monotone const_le_antisym const_le_empty show "c1 = c2"
    by (intro worklist_algorithm_deterministic [where le = const_le and forward = True
          and init = Map.empty and ?r1.0 = c1 and ?r2.0 = c2]) simp_all
next
  have bot: "{} \<subseteq> x" for x :: "string set" by simp
  assume "worklist_algorithm cfg block_labels blocks (\<lambda>block v. Inr (live_func block v)) union False lp1
        (run_df_start block_labels {}) = Some (Inr l1)"
    and "worklist_algorithm cfg block_labels blocks (\<lambda>block v. Inr (live_func block v)) union False lp2
        (run_df_start block_labels {}) = Some (Inr l2)"
  with live_func_monotone bot show "l1 = l2"
    by (intro worklist_algorithm_deterministic [where le = "(\<subseteq>)" and forward = False
          and init = "{}" and ?r1.0 = l1 and ?r2.0 = l2]) simp_all
next
  assume "consistent_graph graph"
    and "data_flow_analysis graph label2block True Map.empty merge_dicts reaching_defs dp1 = Some (Inr d1)"
    and "data_flow_analysis graph label2block True Map.empty merge_dicts reaching_defs dp2 = Some (Inr d2)"
  with reaching_defs_monotone defs_le_antisym defs_le_empty show "d1 = d2"
    by (intro data_flow_analysis_deterministic [where le = defs_le and init = Map.empty
          and ?r1.0 = d1 and ?r2.0 = d2]) simp_all
next
  assume "consistent_graph graph"
    and "data_flow_analysis graph label2block True Map.empty merge_consts const_prop kp1 = Some (Inr k1)"
    and "data_flow_analysis graph label2block True Map.empty merge_consts const_prop kp2 = Some (Inr k2)"
  with const_prop_monotone const_le_antisym const_le_empty show "k1 = k2"
    by (intro data_flow_analysis_deterministic [where le = const_le and init = Map.empty
          and ?r1.0 = k1 and ?r2.0 = k2]) simp_all
next
  have bot: "{} \<subseteq> x" for x :: "string set" by simp
  assume "consistent_graph graph"
    and "data_flow_analysis graph label2block False {} union_sets (\<lambda>is v. Inr (live_vars is v)) vp1
        = Some (Inr v1)"
    and "data_flow_analysis graph label2block False {} union_sets (\<lambda>is v. Inr (live_vars is v)) vp2
        = Some (Inr v2)"
  with live_vars_monotone bot show "v1 = v2"
    by (intro data_flow_analysis_deterministic [where le = "(\<subseteq>)" and init = "{}"
          and ?r1.0 = v1 and ?r2.0 = v2]) simp_all
qed

subsection \<open>Two orders on a program of two blocks\<close>

text \<open>
  The program \<open>A: a = const 4; B: print a;\<close>, where \<open>A\<close> falls through to \<open>B\<close>.
  Each analysis is run twice: in the order in which values flow, and starting from
  the wrong end, which costs one more round.
\<close>

definition ex_cfg :: cfg where
  "ex_cfg = [(''A'', [''B'']), (''B'', [])]"

definition ex_block_labels :: "(nat \<times> string) list" where
  "ex_block_labels = [(0, ''A''), (1, ''B'')]"

definition ex_blocks :: "instr list list" where
  "ex_blocks = [[label_i ''A'', const_i ''a'' 4], [label_i ''B'', eff_i ''print'' [''a'']]]"

definition ex_flow_graph :: graph where
  "ex_flow_graph = [(''A'', \<lparr>successors = [''B''], predecessors = []\<rparr>),
                    (''B'', \<lparr>successors = [], predecessors = [''A'']\<rparr>)]"

definition ex_flow_blocks :: "(string \<times> instr list) list" where
  "ex_flow_blocks = [(''A'', [label_i ''A'', const_i ''a'' 4]), (''B'', [label_i ''B'', eff_i ''print'' [''a'']])]"

lemmas flow_ex_defs = ex_cfg_def ex_block_labels_def ex_blocks_def ex_flow_graph_def ex_flow_blocks_def

lemma returns_iff: "map_option isl x = Some False \<longleftrightarrow> (\<exists>r. x = Some (Inr r))"
proof (cases x)
  case None
  then show ?thesis by simp
next
  case (Some a)
  then show ?thesis by (cases a) auto
qed

lemma ex_consistent_graph: "consistent_graph ex_flow_graph"
  by (auto simp: consistent_graph_def ex_flow_graph_def split: if_splits)

lemmas flow_defs = run_df_start_def worklist_round_def values_at_def block_of_label_def
  get_predecessor_def data_flow_analysis_def data_flow_round_def

lemma ex_live_run_1: "map_option isl (worklist_algorithm ex_cfg ex_block_labels ex_blocks (\<lambda>block v. Inr (live_func block v))
     union False [''B'', ''A''] (run_df_start ex_block_labels {})) = Some False"
  by (simp add: flow_ex_defs flow_defs live_func_def union_def instr_defs py_defs insert_Diff_if)

lemma ex_live_run_2: "map_option isl (worklist_algorithm ex_cfg ex_block_labels ex_blocks (\<lambda>block v. Inr (live_func block v))
     union False [''A'', ''B'', ''A''] (run_df_start ex_block_labels {})) = Some False"
  by (simp add: flow_ex_defs flow_defs live_func_def union_def instr_defs py_defs insert_Diff_if)

lemma ex_cprop_run_1: "map_option isl (worklist_algorithm ex_cfg ex_block_labels ex_blocks cprop_func cprop_merge True
     [''A'', ''B''] (run_df_start ex_block_labels Map.empty)) = Some False"
  by (simp add: flow_ex_defs flow_defs cprop_func_def cprop_func_body_def cprop_merge_def
      instr_defs py_defs fun_eq_iff insert_Diff_if)

lemma ex_cprop_run_2: "map_option isl (worklist_algorithm ex_cfg ex_block_labels ex_blocks cprop_func cprop_merge True
     [''B'', ''A'', ''B''] (run_df_start ex_block_labels Map.empty)) = Some False"
  by (simp add: flow_ex_defs flow_defs cprop_func_def cprop_func_body_def cprop_merge_def
      instr_defs py_defs fun_eq_iff insert_Diff_if)

lemma ex_live_vars_run_1: "map_option isl (data_flow_analysis ex_flow_graph ex_flow_blocks False {} union_sets
     (\<lambda>is v. Inr (live_vars is v)) [''B'', ''A'']) = Some False"
  by (simp add: flow_ex_defs flow_defs live_vars_def union_sets_def instr_defs py_defs insert_Diff_if)

lemma ex_live_vars_run_2: "map_option isl (data_flow_analysis ex_flow_graph ex_flow_blocks False {} union_sets
     (\<lambda>is v. Inr (live_vars is v)) [''A'', ''B'', ''A'']) = Some False"
  by (simp add: flow_ex_defs flow_defs live_vars_def union_sets_def instr_defs py_defs insert_Diff_if)

lemma ex_const_prop_run_1: "map_option isl (data_flow_analysis ex_flow_graph ex_flow_blocks True Map.empty merge_consts const_prop
     [''A'', ''B'']) = Some False"
  by (simp add: flow_ex_defs flow_defs const_prop_def const_prop_body_def merge_consts_def
      instr_defs py_defs fun_eq_iff insert_Diff_if)

lemma ex_const_prop_run_2: "map_option isl (data_flow_analysis ex_flow_graph ex_flow_blocks True Map.empty merge_consts const_prop
     [''B'', ''A'', ''B'']) = Some False"
  by (simp add: flow_ex_defs flow_defs const_prop_def const_prop_body_def merge_consts_def
      instr_defs py_defs fun_eq_iff insert_Diff_if)

lemma ex_reaching_run_1: "map_option isl (data_flow_analysis ex_flow_graph ex_flow_blocks True Map.empty merge_dicts reaching_defs
     [''A'', ''B'']) = Some False"
  by (simp add: flow_ex_defs flow_defs reaching_defs_def reaching_defs_body_def merge_dicts_def
      get_var_defs_def format_instruction_def str_int_def str_nat.simps
      instr_defs py_defs fun_eq_iff insert_Diff_if)

lemma ex_reaching_run_2: "map_option isl (data_flow_analysis ex_flow_graph ex_flow_blocks True Map.empty merge_dicts reaching_defs
     [''B'', ''A'', ''B'']) = Some False"
  by (simp add: flow_ex_defs flow_defs reaching_defs_def reaching_defs_body_def merge_dicts_def
      get_var_defs_def format_instruction_def str_int_def str_nat.simps
      instr_defs py_defs fun_eq_iff insert_Diff_if)

theorem worklist_result_independent_of_pop_order_witness:
  "worklist_algorithm ex_cfg ex_block_labels ex_blocks cprop_func cprop_merge True
       [''A'', ''B''] (run_df_start ex_block_labels Map.empty) =
     worklist_algorithm ex_cfg ex_block_labels ex_blocks cprop_func cprop_merge True
       [''B'', ''A'', ''B''] (run_df_start ex_block_labels Map.empty) \<and>
   worklist_algorithm ex_cfg ex_block_labels ex_blocks (\<lambda>block v. Inr (live_func block v))
       union False [''B'', ''A''] (run_df_start ex_block_labels {}) =
     worklist_algorithm ex_cfg ex_block_labels ex_blocks (\<lambda>block v. Inr (live_func block v))
       union False [''A'', ''B'', ''A''] (run_df_start ex_block_labels {}) \<and>
   data_flow_analysis ex_flow_graph ex_flow_blocks True Map.empty merge_dicts reaching_defs
       [''A'', ''B''] =
     data_flow_analysis ex_flow_graph ex_flow_blocks True Map.empty merge_dicts reaching_defs
       [''B'', ''A'', ''B''] \<and>
   data_flow_analysis ex_flow_graph ex_flow_blocks True Map.empty merge_consts const_prop
       [''A'', ''B''] =
     data_flow_analysis ex_flow_graph ex_flow_blocks True Map.empty merge_consts const_prop
       [''B'', ''A'', ''B''] \<and>
   data_flow_analysis ex_flow_graph ex_flow_blocks False {} union_sets
       (\<lambda>is v. Inr (live_vars is v)) [''B'', ''A''] =
     data_flow_analysis ex_flow_graph ex_flow_blocks False {} union_sets
       (\<lambda>is v. Inr (live_vars is v)) [''A'', ''B'', ''A''] \<and>
   map_option isl (worklist_algorithm ex_cfg ex_block_labels ex_blocks cprop_func cprop_merge True
       [''A'', ''B''] (run_df_start ex_block_labels Map.empty)) = Some False \<and>
   map_option isl (worklist_algorithm ex_cfg ex_block_labels ex_blocks
       (\<lambda>block v. Inr (live_func block v)) union False [''B'', ''A'']
       (run_df_start ex_block_labels {})) = Some False \<and>
   map_option isl (data_flow_analysis ex_flow_graph ex_flow_blocks True Map.empty merge_dicts
       reaching_defs [''A'', ''B'']) = Some False \<and>
   map_option isl (data_flow_analysis ex_flow_graph ex_flow_blocks True Map.empty merge_consts
       const_prop [''A'', ''B'']) = Some False \<and>
   map_option isl (data_flow_analysis ex_flow_graph ex_flow_blocks False {} union_sets
       (\<lambda>is v. Inr (live_vars is v)) [''B'', ''A'']) = Some False"
proof -
  have dk: "distinct (map fst ex_cfg)" by (simp add: ex_cfg_def)
  from ex_cprop_run_1 ex_cprop_run_2 obtain c1 c2 where
    c: "worklist_algorithm ex_cfg ex_block_labels ex_blocks cprop_func cprop_merge True
          [''A'', ''B''] (run_df_start ex_block_labels Map.empty) = Some (Inr c1)"
       "worklist_algorithm ex_cfg ex_block_labels ex_blocks cprop_func cprop_merge True
          [''B'', ''A'', ''B''] (run_df_start ex_block_labels Map.empty) = Some (Inr c2)"
    unfolding returns_iff by blast
  from ex_live_run_1 ex_live_run_2 obtain l1 l2 where
    l: "worklist_algorithm ex_cfg ex_block_labels ex_blocks (\<lambda>block v. Inr (live_func block v))
          union False [''B'', ''A''] (run_df_start ex_block_labels {}) = Some (Inr l1)"
       "worklist_algorithm ex_cfg ex_block_labels ex_blocks (\<lambda>block v. Inr (live_func block v))
          union False [''A'', ''B'', ''A''] (run_df_start ex_block_labels {}) = Some (Inr l2)"
    unfolding returns_iff by blast
  from ex_reaching_run_1 ex_reaching_run_2 obtain d1 d2 where
    d: "data_flow_analysis ex_flow_graph ex_flow_blocks True Map.empty merge_dicts reaching_defs
          [''A'', ''B''] = Some (Inr d1)"
       "data_flow_analysis ex_flow_graph ex_flow_blocks True Map.empty merge_dicts reaching_defs
          [''B'', ''A'', ''B''] = Some (Inr d2)"
    unfolding returns_iff by blast
  from ex_const_prop_run_1 ex_const_prop_run_2 obtain k1 k2 where
    k: "data_flow_analysis ex_flow_graph ex_flow_blocks True Map.empty merge_consts const_prop
          [''A'', ''B''] = Some (Inr k1)"
       "data_flow_analysis ex_flow_graph ex_flow_blocks True Map.empty merge_consts const_prop
          [''B'', ''A'', ''B''] = Some (Inr k2)"
    unfolding returns_iff by blast
  from ex_live_vars_run_1 ex_live_vars_run_2 obtain v1 v2 where
    v: "data_flow_analysis ex_flow_graph ex_flow_blocks False {} union_sets
          (\<lambda>is v. Inr (live_vars is v)) [''B'', ''A''] = Some (Inr v1)"
       "data_flow_analysis ex_flow_graph ex_flow_blocks False {} union_sets
          (\<lambda>is v. Inr (live_vars is v)) [''A'', ''B'', ''A''] = Some (Inr v2)"
    unfolding returns_iff by blast
  from worklist_result_independent_of_pop_order [where cfg = ex_cfg
      and block_labels = ex_block_labels and blocks = ex_blocks
      and graph = ex_flow_graph and label2block = ex_flow_blocks
      and ?cp1.0 = "[''A'', ''B'']" and ?cp2.0 = "[''B'', ''A'', ''B'']"
      and ?lp1.0 = "[''B'', ''A'']" and ?lp2.0 = "[''A'', ''B'', ''A'']"
      and ?dp1.0 = "[''A'', ''B'']" and ?dp2.0 = "[''B'', ''A'', ''B'']"
      and ?kp1.0 = "[''A'', ''B'']" and ?kp2.0 = "[''B'', ''A'', ''B'']"
      and ?vp1.0 = "[''B'', ''A'']" and ?vp2.0 = "[''A'', ''B'', ''A'']"
      and ?c1.0 = c1 and ?c2.0 = c2 and ?l1.0 = l1 and ?l2.0 = l2 and ?d1.0 = d1 and ?d2.0 = d2
      and ?k1.0 = k1 and ?k2.0 = k2 and ?v1.0 = v1 and ?v2.0 = v2]
    dk ex_consistent_graph c l d k v
  have "c1 = c2" "l1 = l2" "d1 = d2" "k1 = k2" "v1 = v2" by simp_all
  with c l d k v show ?thesis by (simp add: isl_def)
qed

end
